theory Spec2Isabelle
  imports Main "HOL-Library.AList" "HOL-Library.Word"
begin

section \<open>The clock replacer (src/buffer/clock_replacer.cpp)\<close>

text \<open>
  The replacer keeps three parallel vectors of \<open>max_size\<close> entries: the frame id held by
  each slot (\<open>-1\<close> for an empty slot), its pinned flag and its reference bit; the clock
  hand \<open>now\<close>; and the counter \<open>size_r\<close> (the member \<open>size_\<close>), which registrations
  increase up to \<open>max_size\<close> and which nothing decreases.  Frame ids are the signed
  integers of the source, so that the sentinel \<open>-1\<close> is a value of the type.
\<close>

record replacer =
  frame_ids :: "int list"
  pinned :: "bool list"
  ref_bits :: "bool list"
  max_size :: nat
  now :: nat
  size_r :: nat

definition ClockReplacer :: "nat \<Rightarrow> replacer" where
  "ClockReplacer num_pages =
     \<lparr>frame_ids = replicate num_pages (-1),
      pinned = replicate num_pages False,
      ref_bits = replicate num_pages False,
      max_size = num_pages,
      now = 0,
      size_r = 0\<rparr>"

text \<open>
  The vectors are created with \<open>max_size\<close> entries and never resized, \<open>size_r\<close> never
  exceeds \<open>max_size\<close>, and the hand is 0 while \<open>size_r\<close> is 0 and below \<open>size_r\<close>
  afterwards: under \<open>replacer_wf\<close> every index the member functions read is in range.
\<close>

definition replacer_wf :: "replacer \<Rightarrow> bool" where
  "replacer_wf r \<longleftrightarrow>
     length (frame_ids r) = max_size r \<and>
     length (pinned r) = max_size r \<and>
     length (ref_bits r) = max_size r \<and>
     size_r r \<le> max_size r \<and>
     now r < max 1 (size_r r)"

text \<open>The first loop of \<open>Victim\<close>: the slots below \<open>size_r\<close> that hold a pinned frame.\<close>

definition pinned_cnt :: "replacer \<Rightarrow> nat" where
  "pinned_cnt r =
     length (filter (\<lambda>i. frame_ids r ! i \<noteq> -1 \<and> pinned r ! i) [0..<size_r r])"

text \<open>
  The sweep \<open>for (;; now_ = (now_ + 1) % size_)\<close>.  Both \<open>continue\<close> and the end of the
  body run the increment.  The loop has no exit but the \<open>return\<close>, so it is a partial
  function: \<open>None\<close> is the sweep that never returns.
\<close>

partial_function (option) victim_sweep :: "replacer \<Rightarrow> (int \<times> replacer) option" where
  "victim_sweep r =
     (if pinned r ! now r \<or> frame_ids r ! now r = -1
      then victim_sweep (r\<lparr>now := (now r + 1) mod size_r r\<rparr>)
      else if ref_bits r ! now r
      then victim_sweep (r\<lparr>ref_bits := (ref_bits r)[now r := False],
                            now := (now r + 1) mod size_r r\<rparr>)
      else Some (frame_ids r ! now r,
                 r\<lparr>frame_ids := (frame_ids r)[now r := -1],
                   now := (now r + 1) mod size_r r\<rparr>))"

text \<open>
  \<open>Victim\<close> returns \<open>None\<close> when it does not return, \<open>Some (None, r)\<close> for \<open>false\<close>, and
  \<open>Some (Some f, r')\<close> for \<open>true\<close> with \<open>*frame_id = f\<close>.
\<close>

definition Victim :: "replacer \<Rightarrow> (int option \<times> replacer) option" where
  "Victim r =
     (if size_r r = 0 then Some (None, r)
      else if pinned_cnt r = size_r r then Some (None, r)
      else map_option (\<lambda>(f, r'). (Some f, r')) (victim_sweep r))"

text \<open>
  The search loop \<open>for (i = 0; i < max_size_; i++) if (frame_ids_[i] == x)\<close> that \<open>Pin\<close>
  and \<open>Unpin\<close> both run, first for the frame id and then for \<open>-1\<close>: the first slot that
  holds \<open>x\<close>.
\<close>

definition slot_of :: "replacer \<Rightarrow> int \<Rightarrow> nat option" where
  "slot_of r x = find (\<lambda>i. frame_ids r ! i = x) [0..<max_size r]"

definition Pin :: "replacer \<Rightarrow> int \<Rightarrow> replacer" where
  "Pin r frame_id =
     (case slot_of r frame_id of
        Some i \<Rightarrow> r\<lparr>pinned := (pinned r)[i := True], ref_bits := (ref_bits r)[i := True]\<rparr>
      | None \<Rightarrow>
          (case slot_of r (-1) of
             Some i \<Rightarrow>
               r\<lparr>frame_ids := (frame_ids r)[i := frame_id],
                 pinned := (pinned r)[i := True],
                 ref_bits := (ref_bits r)[i := False],
                 size_r := min (size_r r + 1) (max_size r)\<rparr>
           | None \<Rightarrow> r))"

definition Unpin :: "replacer \<Rightarrow> int \<Rightarrow> replacer" where
  "Unpin r frame_id =
     (case slot_of r frame_id of
        Some i \<Rightarrow>
          (if pinned r ! i
           then r\<lparr>ref_bits := (ref_bits r)[i := True], pinned := (pinned r)[i := False]\<rparr>
           else r)
      | None \<Rightarrow>
          (case slot_of r (-1) of
             Some i \<Rightarrow>
               r\<lparr>frame_ids := (frame_ids r)[i := frame_id],
                 pinned := (pinned r)[i := False],
                 ref_bits := (ref_bits r)[i := False],
                 size_r := min (size_r r + 1) (max_size r)\<rparr>
           | None \<Rightarrow> r))"

definition Size :: "replacer \<Rightarrow> nat" where
  "Size r =
     length (filter (\<lambda>i. frame_ids r ! i \<noteq> -1 \<and> \<not> pinned r ! i) [0..<max_size r])"

section \<open>The buffer pool manager instance (src/buffer/buffer_pool_manager_instance.cpp)\<close>

text \<open>
  Modelled from the spec: the types \<open>page_id_t\<close> and \<open>frame_id_t\<close> of common/config.h
  and the members of \<open>Page\<close> (storage/page/page.h), none of them among the sources.  The
  spec has the page id a signed integer with the sentinel \<open>-1\<close> and the pin count a
  non-negative integer; BusTub declares \<open>page_id_t\<close> as \<open>int32_t\<close>.  A page id, a pin
  count and a frame id are here the integers they denote.  The source compares them and
  stores them; the one page id it computes with is the counter \<open>next_page_id_\<close>, which is
  kept as its 32 bits below, so that its arithmetic wraps.  The frame buffer is a list of
  bytes.
\<close>

type_synonym page_data = "char list"

record page =
  page_id :: int
  pin_count :: int
  is_dirty :: bool
  data :: page_data

text \<open>
  Modelled from the spec: the constants \<open>INVALID_PAGE_ID\<close> and \<open>PAGE_SIZE\<close> of
  common/config.h, which is not among the sources.  The spec fixes the sentinel to \<open>-1\<close>
  and gives 4096 as the usual page size; nothing below depends on the number.
\<close>

definition INVALID_PAGE_ID :: int where
  "INVALID_PAGE_ID = -1"

definition PAGE_SIZE :: nat where
  "PAGE_SIZE = 4096"

text \<open>
  Modelled from the spec: \<open>Page::ResetMemory\<close> and the state of a \<open>Page\<close> after its
  constructor (storage/page/page.h is not among the sources).  The spec has the buffer
  zeroed, and a frame that was never used with \<open>page_id = INVALID\<close>, \<open>pin_count = 0\<close>
  and \<open>is_dirty = false\<close>.
\<close>

definition ResetMemory :: "page \<Rightarrow> page" where
  "ResetMemory p = p\<lparr>data := replicate PAGE_SIZE (CHR 0x00)\<rparr>"

definition Page :: page where
  "Page = \<lparr>page_id = INVALID_PAGE_ID, pin_count = 0, is_dirty = False,
           data = replicate PAGE_SIZE (CHR 0x00)\<rparr>"

text \<open>
  The state of an instance.  \<open>num_instances\<close> and \<open>instance_index\<close> are \<open>uint32_t\<close> in
  the source, and \<open>next_page_id\<close> is the 32 bits of the \<open>page_id_t\<close> counter; the page id
  that the counter denotes is \<open>sint (next_page_id s)\<close>.  \<open>page_table\<close> is the hash map of
  the source as an association list with distinct keys: \<open>find\<close> is \<open>map_of\<close>, \<open>erase\<close> is
  \<open>AList.delete\<close>, and \<open>page_table_[k] = v\<close> is \<open>AList.update\<close>.  \<open>disk\<close> is the content
  of the disk behind \<open>disk_manager_\<close>, and \<open>deallocated\<close> is the list of page ids handed
  to \<open>DeallocatePage\<close>, oldest first.  The log manager is stored by the constructor and
  never used, so it has no field.
\<close>

record bpmi =
  pool_size :: nat
  num_instances :: "32 word"
  instance_index :: "32 word"
  next_page_id :: "32 word"
  pages :: "page list"
  page_table :: "(int \<times> int) list"
  free_list :: "int list"
  replacer :: replacer
  disk :: "int \<Rightarrow> page_data"
  deallocated :: "int list"

text \<open>
  What stops a call from returning: a failed assertion, an index outside \<open>pages_\<close>
  (undefined behaviour in the source), and a \<open>Victim\<close> sweep that never ends.
\<close>

datatype fault = AssertionFailure | OutOfRange | NoReturn

text \<open>
  Modelled from the spec: the disk manager's \<open>WritePage\<close> and \<open>ReadPage\<close> and the
  instance's \<open>DeallocatePage\<close> hook (disk_manager.h and buffer_pool_manager_instance.h
  are not among the sources).  A write stores the buffer under the page id, a read
  returns what is stored, and the hook records the id it was called with.
\<close>

definition WritePage :: "int \<Rightarrow> page_data \<Rightarrow> bpmi \<Rightarrow> bpmi" where
  "WritePage p d s = s\<lparr>disk := (disk s)(p := d)\<rparr>"

definition ReadPage :: "int \<Rightarrow> bpmi \<Rightarrow> page_data" where
  "ReadPage p s = disk s p"

definition DeallocatePage :: "int \<Rightarrow> bpmi \<Rightarrow> bpmi" where
  "DeallocatePage p s = s\<lparr>deallocated := deallocated s @ [p]\<rparr>"

text \<open>
  The constructor.  \<open>num_instances\<close> and \<open>instance_index\<close> are \<open>uint32_t\<close> parameters,
  compared without sign; \<open>next_page_id_(instance_index)\<close> converts the index to
  \<open>page_id_t\<close>, which keeps its 32 bits.
\<close>

definition BufferPoolManagerInstance ::
    "nat \<Rightarrow> 32 word \<Rightarrow> 32 word \<Rightarrow> (int \<Rightarrow> page_data) \<Rightarrow> fault + bpmi" where
  "BufferPoolManagerInstance psize ninst idx disk_manager =
     (if \<not> 0 < ninst then Inl AssertionFailure
      else if \<not> idx < ninst then Inl AssertionFailure
      else Inr \<lparr>pool_size = psize,
                num_instances = ninst,
                instance_index = idx,
                next_page_id = idx,
                pages = replicate psize Page,
                page_table = [],
                free_list = map int [0..<psize],
                replacer = ClockReplacer psize,
                disk = disk_manager,
                deallocated = []\<rparr>)"

text \<open>\<open>pages_[frame_id]\<close> is inside the array.\<close>

definition in_pool :: "bpmi \<Rightarrow> int \<Rightarrow> bool" where
  "in_pool s f \<longleftrightarrow> 0 \<le> f \<and> nat f < length (pages s)"

text \<open>
  The assertion of \<open>ValidatePageId\<close>.  In \<open>page_id % num_instances_\<close> the page id is
  converted to \<open>uint32_t\<close>, so the remainder is that of the unsigned reading of its 32
  bits.
\<close>

definition ValidatePageId :: "bpmi \<Rightarrow> int \<Rightarrow> bool" where
  "ValidatePageId s pid \<longleftrightarrow>
     (word_of_int pid :: 32 word) mod num_instances s = instance_index s"

text \<open>
  \<open>AllocatePage\<close> returns the page id that the counter denotes and adds the stride to
  the counter, in 32 bits.
\<close>

definition AllocatePage :: "bpmi \<Rightarrow> fault + (int \<times> bpmi)" where
  "AllocatePage s =
     (let npid = sint (next_page_id s);
          s' = s\<lparr>next_page_id := next_page_id s + num_instances s\<rparr>
      in if ValidatePageId s' npid then Inr (npid, s') else Inl AssertionFailure)"

definition FlushPgImp :: "int \<Rightarrow> bpmi \<Rightarrow> fault + (bool \<times> bpmi)" where
  "FlushPgImp pid s =
     (case map_of (page_table s) pid of
        Some f \<Rightarrow>
          if \<not> in_pool s f then Inl OutOfRange
          else let s1 = WritePage pid (data (pages s ! nat f)) s
               in Inr (True,
                       s1\<lparr>pages := (pages s1)[nat f := (pages s1 ! nat f)\<lparr>is_dirty := False\<rparr>]\<rparr>)
      | None \<Rightarrow> Inr (False, s))"

text \<open>
  \<open>FlushAllPgsImp\<close> writes every resident page and leaves the dirty flags as they are.
  The keys of the page table are distinct, so the order of the writes does not matter.
\<close>

definition FlushAllPgsImp :: "bpmi \<Rightarrow> fault + (unit \<times> bpmi)" where
  "FlushAllPgsImp s =
     (if list_ex (\<lambda>(p, f). \<not> in_pool s f) (page_table s) then Inl OutOfRange
      else Inr ((), fold (\<lambda>(p, f) t. WritePage p (data (pages t ! nat f)) t) (page_table s) s))"

text \<open>
  Step 3 of \<open>NewPgImp\<close>, with the frame chosen: allocate the id, install it in the frame
  and in the page table, pin the frame.
\<close>

definition NewPg_install :: "int \<Rightarrow> bpmi \<Rightarrow> fault + ((int \<times> int) option \<times> bpmi)" where
  "NewPg_install frame_id s =
     (case AllocatePage s of
        Inl e \<Rightarrow> Inl e
      | Inr (npid, s1) \<Rightarrow>
          if \<not> in_pool s1 frame_id then Inl OutOfRange
          else
            let pg = ResetMemory ((pages s1 ! nat frame_id)\<lparr>page_id := npid\<rparr>);
                pg' = pg\<lparr>is_dirty := True, pin_count := 1\<rparr>
            in Inr (Some (npid, frame_id),
                    s1\<lparr>pages := (pages s1)[nat frame_id := pg'],
                       page_table := AList.update npid frame_id (page_table s1),
                       replacer := Pin (replacer s1) frame_id\<rparr>))"

text \<open>
  The block \<open>if (frame_id == -1)\<close> of \<open>NewPgImp\<close>: ask the replacer, write the victim
  back through \<open>FlushPgImp\<close> if it is dirty, erase its page-table entry, go on to step 3.
\<close>

definition NewPg_victim :: "bpmi \<Rightarrow> fault + ((int \<times> int) option \<times> bpmi)" where
  "NewPg_victim s =
     (case Victim (replacer s) of
        None \<Rightarrow> Inl NoReturn
      | Some (None, r') \<Rightarrow> Inr (None, s\<lparr>replacer := r'\<rparr>)
      | Some (Some frame_id, r') \<Rightarrow>
          let s1 = s\<lparr>replacer := r'\<rparr>
          in if \<not> in_pool s1 frame_id then Inl OutOfRange
             else
               (case (if is_dirty (pages s1 ! nat frame_id)
                      then FlushPgImp (page_id (pages s1 ! nat frame_id)) s1
                      else Inr (False, s1)) of
                  Inl e \<Rightarrow> Inl e
                | Inr (_, s2) \<Rightarrow>
                    NewPg_install frame_id
                      (s2\<lparr>page_table :=
                            AList.delete (page_id (pages s2 ! nat frame_id)) (page_table s2)\<rparr>)))"

text \<open>
  Step 2 of \<open>NewPgImp\<close> and \<open>FetchPgImp\<close>, as far as the free list goes: \<open>frame_id\<close>
  starts as \<open>-1\<close> and, if the free list is not empty, becomes its front, which is
  popped.
\<close>

definition pop_free :: "bpmi \<Rightarrow> int \<times> bpmi" where
  "pop_free s = (case free_list s of [] \<Rightarrow> (-1, s) | f # fl \<Rightarrow> (f, s\<lparr>free_list := fl\<rparr>))"

text \<open>
  \<open>NewPgImp\<close> returns \<open>None\<close> for \<open>nullptr\<close>, and \<open>Some (id, f)\<close> for the pointer to
  \<open>pages_[f]\<close> with \<open>*page_id = id\<close>.  Its first loop looks for a frame whose pin count
  is not positive.
\<close>

definition NewPgImp :: "bpmi \<Rightarrow> fault + ((int \<times> int) option \<times> bpmi)" where
  "NewPgImp s =
     (if list_all (\<lambda>i. \<not> pin_count (pages s ! i) \<le> 0) [0..<pool_size s] then Inr (None, s)
      else
        let (frame_id, s1) = pop_free s
        in if frame_id = -1 then NewPg_victim s1 else NewPg_install frame_id s1)"

text \<open>
  Steps 2 to 4 of \<open>FetchPgImp\<close>, with the replacement frame chosen: write it back if it is
  dirty, move the page-table entry, read the page in, pin the frame.
\<close>

definition FetchPg_install :: "int \<Rightarrow> int \<Rightarrow> bpmi \<Rightarrow> fault + (int option \<times> bpmi)" where
  "FetchPg_install pid frame_id s =
     (if \<not> in_pool s frame_id then Inl OutOfRange
      else
        let old = pages s ! nat frame_id;
            s1 = (if is_dirty old then WritePage (page_id old) (data old) s else s);
            s2 = s1\<lparr>page_table :=
                      AList.update pid frame_id (AList.delete (page_id old) (page_table s1))\<rparr>;
            pg = (ResetMemory old)\<lparr>data := ReadPage pid s2\<rparr>;
            pg' = pg\<lparr>page_id := pid, pin_count := 1, is_dirty := False\<rparr>
        in Inr (Some frame_id,
                s2\<lparr>pages := (pages s2)[nat frame_id := pg'],
                   replacer := Pin (replacer s2) frame_id\<rparr>))"

text \<open>
  \<open>FetchPgImp\<close> returns \<open>None\<close> for \<open>nullptr\<close> and \<open>Some f\<close> for the pointer to
  \<open>pages_[f]\<close>.
\<close>

definition FetchPgImp :: "int \<Rightarrow> bpmi \<Rightarrow> fault + (int option \<times> bpmi)" where
  "FetchPgImp pid s =
     (case map_of (page_table s) pid of
        Some frame_id \<Rightarrow>
          if \<not> in_pool s frame_id then Inl OutOfRange
          else if 0 < pin_count (pages s ! nat frame_id) then Inr (None, s)
          else Inr (Some frame_id,
                    s\<lparr>pages := (pages s)[nat frame_id :=
                                  (pages s ! nat frame_id)
                                    \<lparr>pin_count := pin_count (pages s ! nat frame_id) + 1\<rparr>],
                      replacer := Pin (replacer s) frame_id\<rparr>)
      | None \<Rightarrow>
          let (frame_id, s1) = pop_free s
          in if frame_id = -1
             then (case Victim (replacer s1) of
                     None \<Rightarrow> Inl NoReturn
                   | Some (None, r') \<Rightarrow> Inr (None, s1\<lparr>replacer := r'\<rparr>)
                   | Some (Some v, r') \<Rightarrow> FetchPg_install pid v (s1\<lparr>replacer := r'\<rparr>))
             else FetchPg_install pid frame_id s1)"

definition DeletePgImp :: "int \<Rightarrow> bpmi \<Rightarrow> fault + (bool \<times> bpmi)" where
  "DeletePgImp pid s =
     (case map_of (page_table s) pid of
        None \<Rightarrow> Inr (True, DeallocatePage pid s)
      | Some frame_id \<Rightarrow>
          if \<not> in_pool s frame_id then Inl OutOfRange
          else if 0 < pin_count (pages s ! nat frame_id) then Inr (False, s)
          else Inr (True,
                    DeallocatePage pid
                      (s\<lparr>pages := (pages s)[nat frame_id :=
                                    (pages s ! nat frame_id)
                                      \<lparr>page_id := INVALID_PAGE_ID, pin_count := 0,
                                        is_dirty := False\<rparr>],
                         free_list := frame_id # free_list s,
                         page_table := AList.delete pid (page_table s)\<rparr>)))"

definition UnpinPgImp :: "int \<Rightarrow> bool \<Rightarrow> bpmi \<Rightarrow> fault + (bool \<times> bpmi)" where
  "UnpinPgImp pid dirty s =
     (case map_of (page_table s) pid of
        None \<Rightarrow> Inr (False, s)
      | Some frame_id \<Rightarrow>
          if \<not> in_pool s frame_id then Inl OutOfRange
          else
            let pg = pages s ! nat frame_id
            in if 0 < pin_count pg
               then
                 let cnt = pin_count pg - 1;
                     r' = (if cnt = 0 then Unpin (replacer s) frame_id else replacer s);
                     d' = (if \<not> is_dirty pg then dirty else is_dirty pg)
                 in Inr (True,
                         s\<lparr>pages := (pages s)[nat frame_id := pg\<lparr>pin_count := cnt, is_dirty := d'\<rparr>],
                           replacer := r'\<rparr>)
               else Inr (False, s))"

section \<open>Sequences of calls\<close>

text \<open>
  The public entry points of the instance, what each returns, and a sequence of calls
  run from a state; a call that does not return ends the run with its fault.
\<close>

datatype request =
    NewPage
  | FetchPage int
  | UnpinPage int bool
  | FlushPage int
  | FlushAllPages
  | DeletePage int

datatype response =
    NewFrame "(int \<times> int) option"
  | Frame "int option"
  | Flag bool
  | Unit

fun step :: "request \<Rightarrow> bpmi \<Rightarrow> fault + (response \<times> bpmi)" where
  "step NewPage s = map_sum id (map_prod NewFrame id) (NewPgImp s)"
| "step (FetchPage p) s = map_sum id (map_prod Frame id) (FetchPgImp p s)"
| "step (UnpinPage p d) s = map_sum id (map_prod Flag id) (UnpinPgImp p d s)"
| "step (FlushPage p) s = map_sum id (map_prod Flag id) (FlushPgImp p s)"
| "step FlushAllPages s = map_sum id (map_prod (\<lambda>_. Unit) id) (FlushAllPgsImp s)"
| "step (DeletePage p) s = map_sum id (map_prod Flag id) (DeletePgImp p s)"

fun run :: "request list \<Rightarrow> fault + (response list \<times> bpmi) \<Rightarrow> fault + (response list \<times> bpmi)" where
  "run [] x = x"
| "run (q # qs) (Inl e) = Inl e"
| "run (q # qs) (Inr (out, s)) =
     run qs (case step q s of Inl e \<Rightarrow> Inl e | Inr (a, s') \<Rightarrow> Inr (out @ [a], s'))"

text \<open>A freshly constructed instance, before any call.\<close>

definition fresh ::
    "nat \<Rightarrow> 32 word \<Rightarrow> 32 word \<Rightarrow> (int \<Rightarrow> page_data) \<Rightarrow> fault + (response list \<times> bpmi)" where
  "fresh psize ninst idx d = map_sum id (Pair []) (BufferPoolManagerInstance psize ninst idx d)"

text \<open>\<open>k\<close> successive calls of \<open>AllocatePage\<close>, with the ids they return in order.\<close>

fun AllocatePages :: "nat \<Rightarrow> bpmi \<Rightarrow> fault + (int list \<times> bpmi)" where
  "AllocatePages 0 s = Inr ([], s)"
| "AllocatePages (Suc k) s =
     (case AllocatePage s of
        Inl e \<Rightarrow> Inl e
      | Inr (p, s1) \<Rightarrow>
          (case AllocatePages k s1 of
             Inl e \<Rightarrow> Inl e
           | Inr (ps, s2) \<Rightarrow> Inr (p # ps, s2)))"

text \<open>The page ids that the \<open>NewPage\<close> calls of a run have returned, in order.\<close>

fun new_ids :: "response list \<Rightarrow> int list" where
  "new_ids [] = []"
| "new_ids (NewFrame (Some (p, f)) # rs) = p # new_ids rs"
| "new_ids (a # rs) = new_ids rs"

section \<open>Scenario states\<close>

text \<open>A disk on which every page is zeroed, for the scenarios.\<close>

definition blank_disk :: "int \<Rightarrow> page_data" where
  "blank_disk p = replicate PAGE_SIZE (CHR 0x00)"

text \<open>
  The instance with one frame, one shard and a blank disk after its first \<open>NewPage\<close>:
  page 0 sits in frame 0 with pin count 1, dirty, and the replacer holds frame 0 pinned.
\<close>

definition one_pinned :: bpmi where
  "one_pinned =
     \<lparr>pool_size = 1, num_instances = 1, instance_index = 0, next_page_id = 1,
      pages = [\<lparr>page_id = 0, pin_count = 1, is_dirty = True,
                data = replicate PAGE_SIZE (CHR 0x00)\<rparr>],
      page_table = [(0, 0)], free_list = [],
      replacer = \<lparr>frame_ids = [0], pinned = [True], ref_bits = [False],
                  max_size = 1, now = 0, size_r = 1\<rparr>,
      disk = blank_disk, deallocated = []\<rparr>"

section \<open>Invariants\<close>

text \<open>A frame id is evictable when the slot that holds it is not pinned.\<close>

definition evictable :: "replacer \<Rightarrow> int \<Rightarrow> bool" where
  "evictable r f \<longleftrightarrow> (case slot_of r f of Some i \<Rightarrow> \<not> pinned r ! i | None \<Rightarrow> False)"

text \<open>
  Slot \<open>i\<close> is one the sweep of \<open>Victim\<close> can return: it is below \<open>size_r\<close> and holds a
  frame that is not pinned.
\<close>

definition slot_evictable :: "replacer \<Rightarrow> nat \<Rightarrow> bool" where
  "slot_evictable r i \<longleftrightarrow> i < size_r r \<and> frame_ids r ! i \<noteq> -1 \<and> \<not> pinned r ! i"

text \<open>
  What a sweep from \<open>r\<close> that returns frame \<open>f\<close> in state \<open>r'\<close> has done: \<open>f\<close> was in
  an evictable slot \<open>i\<close>, which is now empty with its reference bit clear; the hand is
  on the slot after \<open>i\<close>; pinned flags, \<open>size_r\<close> and \<open>max_size\<close> are as before.
\<close>

definition swept :: "replacer \<Rightarrow> int \<Rightarrow> replacer \<Rightarrow> bool" where
  "swept r f r' \<longleftrightarrow>
     (\<exists>i. slot_evictable r i \<and> f = frame_ids r ! i \<and>
        frame_ids r' = (frame_ids r)[i := -1] \<and> pinned r' = pinned r \<and>
        \<not> ref_bits r' ! i \<and> length (ref_bits r') = length (ref_bits r) \<and>
        max_size r' = max_size r \<and> size_r r' = size_r r \<and>
        now r' = (i + 1) mod size_r r)"

text \<open>
  What the replacer keeps on its own, from construction on through every \<open>Pin\<close>, \<open>Unpin\<close>
  and \<open>Victim\<close>: it is well formed and every occupied slot is below \<open>size_r\<close>.
\<close>

definition replacer_inv :: "replacer \<Rightarrow> bool" where
  "replacer_inv r \<longleftrightarrow>
     replacer_wf r \<and> list_all (\<lambda>i. frame_ids r ! i = -1 \<or> i < size_r r) [0..<max_size r]"

text \<open>
  The replacer of a pool with \<open>n\<close> frames: well formed, and every slot is empty or holds
  a frame index of the pool.
\<close>

definition rep_ok :: "nat \<Rightarrow> replacer \<Rightarrow> bool" where
  "rep_ok n r \<longleftrightarrow>
     replacer_wf r \<and> list_all (\<lambda>x. x = -1 \<or> (0 \<le> x \<and> nat x < n)) (frame_ids r)"

text \<open>
  The directory and the free list of a pool with \<open>n\<close> frames: the page table has one
  entry per key; an entry \<open>(p, f)\<close> has an id \<open>p\<close> other than the invalid one, and \<open>f\<close> is
  a frame of the pool that holds \<open>p\<close>; the free list has no frame twice, and its frames
  are frames of the pool that hold no page; and the free list and the page table together
  have \<open>n\<close> entries (invariant I6).
\<close>

definition dir_ok :: "nat \<Rightarrow> page list \<Rightarrow> (int \<times> int) list \<Rightarrow> int list \<Rightarrow> bool" where
  "dir_ok n pgs tab fl \<longleftrightarrow>
     length pgs = n \<and>
     distinct (map fst tab) \<and>
     list_all (\<lambda>(p, f). p \<noteq> -1 \<and> 0 \<le> f \<and> nat f < n \<and> page_id (pgs ! nat f) = p) tab \<and>
     distinct fl \<and>
     list_all (\<lambda>f. 0 \<le> f \<and> nat f < n \<and> page_id (pgs ! nat f) = -1) fl \<and>
     length fl + length tab = n"

definition pool_inv :: "bpmi \<Rightarrow> bool" where
  "pool_inv s \<longleftrightarrow>
     dir_ok (pool_size s) (pages s) (page_table s) (free_list s) \<and>
     rep_ok (pool_size s) (replacer s)"

text \<open>
  The slots of the replacer of a pool with \<open>n\<close> frames: the replacer keeps its own
  invariant and has \<open>n\<close> slots, every slot is empty or holds a frame index of the pool,
  and no frame is in two slots.
\<close>

definition slots_ok :: "nat \<Rightarrow> replacer \<Rightarrow> bool" where
  "slots_ok n r \<longleftrightarrow>
     replacer_inv r \<and> max_size r = n \<and>
     list_all (\<lambda>x. x = -1 \<or> (0 \<le> x \<and> nat x < n)) (frame_ids r) \<and>
     list_all (\<lambda>i. list_all (\<lambda>j. frame_ids r ! i = -1 \<or> frame_ids r ! i \<noteq> frame_ids r ! j \<or> i = j)
                 [0..<max_size r]) [0..<max_size r]"

text \<open>
  The frames of an instance while frame \<open>g\<close> is in hand (\<open>-1\<close> when none is): the array
  \<open>pages_\<close> has \<open>pool_size\<close> entries; the free list and the page table name frames of
  the pool only; the slots of the replacer are as above; and every frame of the pool
  other than \<open>g\<close> is in the free list or in a slot of the replacer.
\<close>

definition frames_ok :: "int \<Rightarrow> bpmi \<Rightarrow> bool" where
  "frames_ok g s \<longleftrightarrow>
     length (pages s) = pool_size s \<and>
     list_all (\<lambda>f. 0 \<le> f \<and> nat f < pool_size s) (free_list s) \<and>
     list_all (\<lambda>(p, f). 0 \<le> f \<and> nat f < pool_size s) (page_table s) \<and>
     slots_ok (pool_size s) (replacer s) \<and>
     list_all (\<lambda>i. int i = g \<or> int i \<in> set (free_list s) \<or>
                   int i \<in> set (frame_ids (replacer s))) [0..<pool_size s]"

text \<open>
  A request that brings in no page under an id it should not have: a \<open>FetchPage\<close> or a
  \<open>NewPage\<close> that returns a frame does not do so for the invalid page id, and the id that
  a \<open>NewPage\<close> returns is not the id of a page resident in another frame.  A sequence of
  requests is such when each request is, in the state in which it is made.
\<close>

definition no_id_clash :: "request \<Rightarrow> bpmi \<Rightarrow> bool" where
  "no_id_clash q s =
     (case q of
        NewPage \<Rightarrow>
          (case NewPgImp s of
             Inr (Some (p, f), s') \<Rightarrow>
               p \<noteq> INVALID_PAGE_ID \<and>
               (case map_of (page_table s) p of Some f' \<Rightarrow> f' = f | None \<Rightarrow> True)
           | _ \<Rightarrow> True)
      | FetchPage p \<Rightarrow>
          (case FetchPgImp p s of
             Inr (Some f, s') \<Rightarrow> p \<noteq> INVALID_PAGE_ID
           | _ \<Rightarrow> True)
      | _ \<Rightarrow> True)"

fun no_id_clashes :: "request list \<Rightarrow> fault + (response list \<times> bpmi) \<Rightarrow> bool" where
  "no_id_clashes [] x = True"
| "no_id_clashes (q # qs) (Inl e) = True"
| "no_id_clashes (q # qs) (Inr (out, s)) =
     (no_id_clash q s \<and>
      no_id_clashes qs
        (case step q s of Inl e \<Rightarrow> Inl e | Inr (a, s') \<Rightarrow> Inr (out @ [a], s')))"

section \<open>Properties of the clock replacer\<close>

lemma slot_of_Some:
  "slot_of r x = Some i \<longleftrightarrow>
     i < max_size r \<and> frame_ids r ! i = x \<and> (\<forall>j<i. frame_ids r ! j \<noteq> x)"
  by (auto simp: slot_of_def find_Some_iff)

lemma slot_of_None: "slot_of r x = None \<longleftrightarrow> (\<forall>i<max_size r. frame_ids r ! i \<noteq> x)"
  by (auto simp: slot_of_def find_None_iff)

lemma slot_of_in_set:
  "length (frame_ids r) = max_size r \<Longrightarrow> slot_of r x = None \<longleftrightarrow> x \<notin> set (frame_ids r)"
  by (auto simp: slot_of_None in_set_conv_nth)

lemma replacer_wf_ClockReplacer: "replacer_wf (ClockReplacer n)"
  by (simp add: replacer_wf_def ClockReplacer_def)

text \<open>
  C8, as the code has it.  \<open>Pin\<close> on a frame id that no slot holds, with an empty slot
  left, takes the first empty slot, stores the id there and marks the slot pinned, and
  it CLEARS the slot's reference bit (the assignment of \<open>true\<close> is commented out in the
  source).  \<open>Pin\<close> on a frame id that a slot holds marks the first such slot pinned and
  sets its reference bit.
\<close>

theorem Pin_registers_with_cleared_ref:
  assumes wf: "replacer_wf r"
  shows "(f \<notin> set (frame_ids r) \<longrightarrow> -1 \<in> set (frame_ids r) \<longrightarrow>
           (\<exists>i<max_size r. frame_ids r ! i = -1 \<and> (\<forall>j<i. frame_ids r ! j \<noteq> -1) \<and>
              Pin r f = r\<lparr>frame_ids := (frame_ids r)[i := f],
                           pinned := (pinned r)[i := True],
                           ref_bits := (ref_bits r)[i := False],
                           size_r := min (size_r r + 1) (max_size r)\<rparr> \<and>
              frame_ids (Pin r f) ! i = f \<and> pinned (Pin r f) ! i \<and> \<not> ref_bits (Pin r f) ! i)) \<and>
         (f \<in> set (frame_ids r) \<longrightarrow>
           (\<exists>i<max_size r. frame_ids r ! i = f \<and> (\<forall>j<i. frame_ids r ! j \<noteq> f) \<and>
              Pin r f = r\<lparr>pinned := (pinned r)[i := True], ref_bits := (ref_bits r)[i := True]\<rparr> \<and>
              frame_ids (Pin r f) ! i = f \<and> pinned (Pin r f) ! i \<and> ref_bits (Pin r f) ! i))"
proof (intro conjI impI)
  assume absent: "f \<notin> set (frame_ids r)" and room: "-1 \<in> set (frame_ids r)"
  from wf have len: "length (frame_ids r) = max_size r" "length (pinned r) = max_size r"
      "length (ref_bits r) = max_size r"
    by (simp_all add: replacer_wf_def)
  from absent len have none: "slot_of r f = None" by (simp add: slot_of_in_set)
  from room len obtain i where i: "slot_of r (-1) = Some i"
    by (cases "slot_of r (-1)") (auto simp: slot_of_in_set)
  then have "i < max_size r" "frame_ids r ! i = -1" "\<forall>j<i. frame_ids r ! j \<noteq> -1"
    by (simp_all add: slot_of_Some)
  with none i len show "\<exists>i<max_size r. frame_ids r ! i = -1 \<and> (\<forall>j<i. frame_ids r ! j \<noteq> -1) \<and>
              Pin r f = r\<lparr>frame_ids := (frame_ids r)[i := f],
                           pinned := (pinned r)[i := True],
                           ref_bits := (ref_bits r)[i := False],
                           size_r := min (size_r r + 1) (max_size r)\<rparr> \<and>
              frame_ids (Pin r f) ! i = f \<and> pinned (Pin r f) ! i \<and> \<not> ref_bits (Pin r f) ! i"
    by (intro exI [of _ i]) (simp add: Pin_def)
next
  assume present: "f \<in> set (frame_ids r)"
  from wf have len: "length (frame_ids r) = max_size r" "length (pinned r) = max_size r"
      "length (ref_bits r) = max_size r"
    by (simp_all add: replacer_wf_def)
  from present len obtain i where i: "slot_of r f = Some i"
    by (cases "slot_of r f") (auto simp: slot_of_in_set)
  then have "i < max_size r" "frame_ids r ! i = f" "\<forall>j<i. frame_ids r ! j \<noteq> f"
    by (simp_all add: slot_of_Some)
  with i len show "\<exists>i<max_size r. frame_ids r ! i = f \<and> (\<forall>j<i. frame_ids r ! j \<noteq> f) \<and>
              Pin r f = r\<lparr>pinned := (pinned r)[i := True], ref_bits := (ref_bits r)[i := True]\<rparr> \<and>
              frame_ids (Pin r f) ! i = f \<and> pinned (Pin r f) ! i \<and> ref_bits (Pin r f) ! i"
    by (intro exI [of _ i]) (simp add: Pin_def)
qed

text \<open>
  The theorem at a fresh two-slot replacer and frame 0 (not registered, an empty slot
  left), and at the replacer that has registered frame 0.
\<close>

theorem Pin_registers_with_cleared_ref_witness:
  "replacer_wf (ClockReplacer 2) \<and> 0 \<notin> set (frame_ids (ClockReplacer 2)) \<and>
   -1 \<in> set (frame_ids (ClockReplacer 2)) \<and>
   (\<exists>i<max_size (ClockReplacer 2).
      frame_ids (Pin (ClockReplacer 2) 0) ! i = 0 \<and> pinned (Pin (ClockReplacer 2) 0) ! i \<and>
      \<not> ref_bits (Pin (ClockReplacer 2) 0) ! i) \<and>
   replacer_wf (Pin (ClockReplacer 2) 0) \<and> 0 \<in> set (frame_ids (Pin (ClockReplacer 2) 0)) \<and>
   (\<exists>i<max_size (Pin (ClockReplacer 2) 0).
      pinned (Pin (Pin (ClockReplacer 2) 0) 0) ! i \<and> ref_bits (Pin (Pin (ClockReplacer 2) 0) 0) ! i)"
proof -
  have wf0: "replacer_wf (ClockReplacer 2)" by (rule replacer_wf_ClockReplacer)
  have a0: "0 \<notin> set (frame_ids (ClockReplacer 2))" "-1 \<in> set (frame_ids (ClockReplacer 2))"
    by (simp_all add: ClockReplacer_def)
  have p0: "Pin (ClockReplacer 2) 0 =
      \<lparr>frame_ids = [0, -1], pinned = [True, False], ref_bits = [False, False],
       max_size = 2, now = 0, size_r = 1\<rparr>"
    by (simp add: Pin_def slot_of_def ClockReplacer_def upt_rec numeral_2_eq_2)
  have wf1: "replacer_wf (Pin (ClockReplacer 2) 0)"
    by (simp add: p0 replacer_wf_def)
  have a1: "0 \<in> set (frame_ids (Pin (ClockReplacer 2) 0))" by (simp add: p0)
  from Pin_registers_with_cleared_ref [OF wf0, of 0] a0
  have "\<exists>i<max_size (ClockReplacer 2).
      frame_ids (Pin (ClockReplacer 2) 0) ! i = 0 \<and> pinned (Pin (ClockReplacer 2) 0) ! i \<and>
      \<not> ref_bits (Pin (ClockReplacer 2) 0) ! i"
    by blast
  moreover from Pin_registers_with_cleared_ref [OF wf1, of 0] a1
  have "\<exists>i<max_size (Pin (ClockReplacer 2) 0).
      pinned (Pin (Pin (ClockReplacer 2) 0) 0) ! i \<and> ref_bits (Pin (Pin (ClockReplacer 2) 0) 0) ! i"
    by blast
  ultimately show ?thesis using wf0 a0 wf1 a1 by blast
qed

text \<open>
  C8 as the spec states it fails: after \<open>Pin(0)\<close> on a fresh one-slot replacer, frame 0 is
  registered and pinned in slot 0, and its reference bit is clear.
\<close>

theorem Pin_sets_ref_counterexample:
  "0 \<notin> set (frame_ids (ClockReplacer 1)) \<and> -1 \<in> set (frame_ids (ClockReplacer 1)) \<and>
   frame_ids (Pin (ClockReplacer 1) 0) = [0] \<and> pinned (Pin (ClockReplacer 1) 0) = [True] \<and>
   ref_bits (Pin (ClockReplacer 1) 0) = [False]"
  by (simp add: Pin_def slot_of_def ClockReplacer_def)

text \<open>
  C10.  \<open>Unpin\<close> on a frame id that a slot holds, no slot that holds it being pinned,
  changes nothing: the replacer is the same, so are the reference bits, the pinned flags
  and the count that \<open>Size\<close> reports.
\<close>

theorem Unpin_evictable_unchanged:
  assumes "i < max_size r" and "frame_ids r ! i = f"
    and "\<forall>j<max_size r. frame_ids r ! j = f \<longrightarrow> \<not> pinned r ! j"
  shows "Unpin r f = r \<and> ref_bits (Unpin r f) = ref_bits r \<and>
         pinned (Unpin r f) = pinned r \<and> Size (Unpin r f) = Size r"
proof -
  from assms(1,2) obtain k where k: "slot_of r f = Some k"
    by (cases "slot_of r f") (auto simp: slot_of_None)
  then have "k < max_size r" "frame_ids r ! k = f" by (simp_all add: slot_of_Some)
  with assms(3) have "\<not> pinned r ! k" by blast
  with k have "Unpin r f = r" by (simp add: Unpin_def)
  then show ?thesis by simp
qed

text \<open>
  The theorem at the replacer reached by \<open>Unpin(7)\<close> from a fresh two-slot replacer: frame
  7 sits in slot 0, unpinned with its reference bit clear, and a second \<open>Unpin(7)\<close> leaves
  the bit clear.
\<close>

theorem Unpin_evictable_unchanged_witness:
  "Unpin (ClockReplacer 2) 7 =
     \<lparr>frame_ids = [7, -1], pinned = [False, False], ref_bits = [False, False],
      max_size = 2, now = 0, size_r = 1\<rparr> \<and>
   Unpin (Unpin (ClockReplacer 2) 7) 7 = Unpin (ClockReplacer 2) 7 \<and>
   ref_bits (Unpin (Unpin (ClockReplacer 2) 7) 7) = [False, False] \<and>
   Size (Unpin (Unpin (ClockReplacer 2) 7) 7) = Size (Unpin (ClockReplacer 2) 7)"
proof -
  have u: "Unpin (ClockReplacer 2) 7 =
      \<lparr>frame_ids = [7, -1], pinned = [False, False], ref_bits = [False, False],
       max_size = 2, now = 0, size_r = 1\<rparr>"
    by (simp add: Unpin_def slot_of_def ClockReplacer_def upt_rec numeral_2_eq_2)
  have h1: "0 < max_size (Unpin (ClockReplacer 2) 7)" by (simp add: u)
  have h2: "frame_ids (Unpin (ClockReplacer 2) 7) ! 0 = 7" by (simp add: u)
  have h3: "\<forall>j<max_size (Unpin (ClockReplacer 2) 7).
      frame_ids (Unpin (ClockReplacer 2) 7) ! j = 7 \<longrightarrow> \<not> pinned (Unpin (ClockReplacer 2) 7) ! j"
    unfolding u by (auto simp: less_Suc_eq numeral_2_eq_2)
  from Unpin_evictable_unchanged [OF h1 h2 h3] show ?thesis
    by (simp add: u)
qed

subsection \<open>When the sweep returns and when it does not\<close>

text \<open>
  With the hand below \<open>size_r\<close> and no evictable slot below \<open>size_r\<close>, the sweep never
  returns; \<open>Victim\<close> enters it whenever \<open>size_r\<close> is positive and some slot below it is
  not both occupied and pinned, an empty slot for one.
\<close>

lemma victim_sweep_hangs:
  assumes "now r < size_r r" and "list_all (\<lambda>i. \<not> slot_evictable r i) [0..<size_r r]"
  shows "victim_sweep r = None"
proof -
  let ?Q = "\<lambda>x. now x < size_r x \<and> (\<forall>i < size_r x. pinned x ! i \<or> frame_ids x ! i = -1)"
  have "\<not> ?Q x" if run: "victim_sweep x = Some y" for x y
  proof (rule victim_sweep.raw_induct [where P = "\<lambda>x y. \<not> ?Q x", OF _ run])
    fix sweep x y
    assume IH: "\<And>x y. sweep x = Some y \<Longrightarrow> \<not> ?Q x"
      and body: "(if pinned x ! now x \<or> frame_ids x ! now x = -1
          then sweep (x\<lparr>now := (now x + 1) mod size_r x\<rparr>)
          else if ref_bits x ! now x
          then sweep (x\<lparr>ref_bits := (ref_bits x)[now x := False],
                         now := (now x + 1) mod size_r x\<rparr>)
          else Some (frame_ids x ! now x,
                     x\<lparr>frame_ids := (frame_ids x)[now x := -1],
                       now := (now x + 1) mod size_r x\<rparr>)) = Some y"
    show "\<not> ?Q x"
    proof
      assume q: "?Q x"
      then have "pinned x ! now x \<or> frame_ids x ! now x = -1" by blast
      with body have "sweep (x\<lparr>now := (now x + 1) mod size_r x\<rparr>) = Some y" by simp
      from IH [OF this] q show False by simp
    qed
  qed
  moreover from assms have "?Q r" by (auto simp: list_all_iff slot_evictable_def)
  ultimately show ?thesis by (cases "victim_sweep r") auto
qed

lemma Victim_hangs:
  assumes "replacer_wf r" and "0 < size_r r" and "pinned_cnt r \<noteq> size_r r"
    and "list_all (\<lambda>i. \<not> slot_evictable r i) [0..<size_r r]"
  shows "Victim r = None"
proof -
  from assms(1,2) have "now r < size_r r" by (simp add: replacer_wf_def)
  from victim_sweep_hangs [OF this assms(4)] assms(2,3) show ?thesis
    by (simp add: Victim_def)
qed

text \<open>
  With an evictable slot below \<open>size_r\<close> the sweep returns: each visit either moves the
  hand one slot closer to the next evictable slot or clears the reference bit of one.
\<close>

lemma slot_evictable_skip [simp]:
  "slot_evictable (r\<lparr>now := k\<rparr>) i = slot_evictable r i"
  "slot_evictable (r\<lparr>ref_bits := bs\<rparr>) i = slot_evictable r i"
  by (simp_all add: slot_evictable_def)

lemma swept_skip:
  "swept (r\<lparr>now := k\<rparr>) f r' \<Longrightarrow> swept r f r'"
  "length bs = length (ref_bits r) \<Longrightarrow> swept (r\<lparr>ref_bits := bs, now := k\<rparr>) f r' \<Longrightarrow> swept r f r'"
  by (auto simp: swept_def)

lemma victim_sweep_returns:
  assumes "replacer_wf r" and "d < size_r r"
    and "slot_evictable r ((now r + d) mod size_r r)"
  shows "\<exists>f r'. victim_sweep r = Some (f, r') \<and> swept r f r'"
  using assms
proof (induction "card {i. slot_evictable r i \<and> ref_bits r ! i} * size_r r + d"
    arbitrary: r d rule: less_induct)
  case less
  let ?n = "size_r r"
  from less.prems have pos: "0 < ?n" and now: "now r < ?n"
    and len: "length (ref_bits r) = max_size r" "?n \<le> max_size r"
    by (auto simp: replacer_wf_def)
  have next_lt: "(now r + 1) mod ?n < max 1 ?n" using pos by simp
  show ?case
  proof (cases "slot_evictable r (now r)")
    case False
    with now have skip: "pinned r ! now r \<or> frame_ids r ! now r = -1"
      by (auto simp: slot_evictable_def)
    from False less.prems(3) now have "d \<noteq> 0" by (cases d) auto
    then obtain d' where d: "d = Suc d'" by (cases d) auto
    let ?r = "r\<lparr>now := (now r + 1) mod ?n\<rparr>"
    have wf: "replacer_wf ?r" using less.prems(1) next_lt by (simp add: replacer_wf_def)
    have "(now ?r + d') mod size_r ?r = (now r + d) mod ?n"
      by (simp add: d mod_add_left_eq)
    with less.prems(3) have ev: "slot_evictable ?r ((now ?r + d') mod size_r ?r)" by simp
    have "card {i. slot_evictable ?r i \<and> ref_bits ?r ! i} * size_r ?r + d'
        < card {i. slot_evictable r i \<and> ref_bits r ! i} * ?n + d"
      by (simp add: d)
    moreover have "d' < size_r ?r" using less.prems(2) by (simp add: d)
    ultimately have "\<exists>f r'. victim_sweep ?r = Some (f, r') \<and> swept ?r f r'"
      using wf ev by (intro less.hyps [of ?r d'])
    then obtain f r' where "victim_sweep ?r = Some (f, r')" "swept ?r f r'" by blast
    note res = this
    from skip res(1) have "victim_sweep r = Some (f, r')"
      by (subst victim_sweep.simps) simp
    moreover from res(2) have "swept r f r'" by (rule swept_skip(1))
    ultimately show ?thesis by blast
  next
    case True
    then have here: "\<not> (pinned r ! now r \<or> frame_ids r ! now r = -1)"
      by (simp add: slot_evictable_def)
    show ?thesis
    proof (cases "ref_bits r ! now r")
      case False
      let ?r' = "r\<lparr>frame_ids := (frame_ids r)[now r := -1], now := (now r + 1) mod ?n\<rparr>"
      from here False have "victim_sweep r = Some (frame_ids r ! now r, ?r')"
        by (subst victim_sweep.simps) simp
      moreover from True False have "swept r (frame_ids r ! now r) ?r'"
        unfolding swept_def by (intro exI [of _ "now r"]) simp
      ultimately show ?thesis by blast
    next
      case ref: True
      let ?r = "r\<lparr>ref_bits := (ref_bits r)[now r := False], now := (now r + 1) mod ?n\<rparr>"
      let ?S = "{i. slot_evictable r i \<and> ref_bits r ! i}"
      have wf: "replacer_wf ?r" using less.prems(1) next_lt by (simp add: replacer_wf_def)
      have fin: "finite ?S" by (rule finite_subset [of _ "{..<?n}"]) (auto simp: slot_evictable_def)
      have mem: "now r \<in> ?S" using True ref by simp
      have "{i. slot_evictable ?r i \<and> ref_bits ?r ! i} = ?S - {now r}"
        using now len by (auto simp: nth_list_update slot_evictable_def)
      then have card: "card {i. slot_evictable ?r i \<and> ref_bits ?r ! i} = card ?S - 1"
        using fin mem by simp
      from fin mem have cpos: "0 < card ?S" by (auto simp: card_gt_0_iff)
      have "(now ?r + (?n - 1)) mod size_r ?r = ((now r + 1) mod ?n + (?n - 1)) mod ?n"
        by simp
      also have "\<dots> = ((now r + 1) + (?n - 1)) mod ?n" by (simp only: mod_add_left_eq)
      also have "(now r + 1) + (?n - 1) = now r + ?n" using pos by simp
      also have "(now r + ?n) mod ?n = now r" using now by simp
      finally have "(now ?r + (?n - 1)) mod size_r ?r = now r" .
      with True have ev: "slot_evictable ?r ((now ?r + (?n - 1)) mod size_r ?r)" by simp
      have "(card ?S - 1) * ?n + (?n - 1) < card ?S * ?n + d"
      proof -
        from cpos have "card ?S * ?n = (card ?S - 1) * ?n + ?n"
          by (cases "card ?S") simp_all
        with pos show ?thesis by simp
      qed
      then have "card {i. slot_evictable ?r i \<and> ref_bits ?r ! i} * size_r ?r + (?n - 1)
          < card ?S * ?n + d"
        by (simp only: card) simp
      moreover have "?n - 1 < size_r ?r" using pos by simp
      ultimately have "\<exists>f r'. victim_sweep ?r = Some (f, r') \<and> swept ?r f r'"
        using wf ev by (intro less.hyps [of ?r "?n - 1"])
      then obtain f r' where "victim_sweep ?r = Some (f, r')" "swept ?r f r'" by blast
      note res = this
      from here ref res(1) have "victim_sweep r = Some (f, r')"
        by (subst victim_sweep.simps) simp
      moreover from res(2) have "swept r f r'" by (rule swept_skip(2) [rotated]) simp
      ultimately show ?thesis by blast
    qed
  qed
qed

lemma Victim_returns:
  assumes wf: "replacer_wf r" and ev: "slot_evictable r i"
  shows "\<exists>f r'. Victim r = Some (Some f, r') \<and> swept r f r'"
proof -
  from ev have i: "i < size_r r" and pos: "0 < size_r r" by (auto simp: slot_evictable_def)
  from wf pos have now: "now r < size_r r" by (simp add: replacer_wf_def)
  have "i \<in> set [0..<size_r r]" "\<not> (frame_ids r ! i \<noteq> -1 \<and> pinned r ! i)"
    using ev by (auto simp: slot_evictable_def)
  then have "pinned_cnt r < length [0..<size_r r]"
    unfolding pinned_cnt_def by (rule length_filter_less)
  then have cnt: "pinned_cnt r \<noteq> size_r r" by simp
  obtain d where d: "d < size_r r" "(now r + d) mod size_r r = i"
  proof
    show "(i + size_r r - now r) mod size_r r < size_r r" using pos by simp
    have "(now r + (i + size_r r - now r) mod size_r r) mod size_r r =
        (now r + (i + size_r r - now r)) mod size_r r"
      by (simp add: mod_add_right_eq)
    also have "\<dots> = i" using now i by simp
    finally show "(now r + (i + size_r r - now r) mod size_r r) mod size_r r = i" .
  qed
  with ev have "slot_evictable r ((now r + d) mod size_r r)" by simp
  from victim_sweep_returns [OF wf d(1) this] obtain f r' where
    "victim_sweep r = Some (f, r')" "swept r f r'" by blast
  with pos cnt show ?thesis by (auto simp: Victim_def)
qed

lemma replacer_inv_unfold:
  "replacer_inv r \<longleftrightarrow>
     replacer_wf r \<and> (\<forall>i<max_size r. frame_ids r ! i \<noteq> -1 \<longrightarrow> i < size_r r)"
  by (auto simp: replacer_inv_def list_all_iff)

lemma replacer_inv_ClockReplacer: "replacer_inv (ClockReplacer n)"
  by (simp add: replacer_inv_unfold replacer_wf_ClockReplacer) (simp add: ClockReplacer_def)

text \<open>A registration takes a slot that is at most \<open>size_r\<close>, so the counter covers it.\<close>

lemma first_empty_le_size:
  assumes "replacer_inv r" and "slot_of r (-1) = Some i"
  shows "i < min (size_r r + 1) (max_size r)"
proof -
  from assms(2) have i: "i < max_size r" and before: "\<forall>j<i. frame_ids r ! j \<noteq> -1"
    by (simp_all add: slot_of_Some)
  have "i \<le> size_r r"
  proof (rule ccontr)
    assume "\<not> i \<le> size_r r"
    then have lt: "size_r r < i" by simp
    with before have "frame_ids r ! size_r r \<noteq> -1" by simp
    moreover from lt i have "size_r r < max_size r" by simp
    ultimately show False using assms(1) by (auto simp: replacer_inv_unfold)
  qed
  with i show ?thesis by simp
qed

lemma replacer_inv_register:
  assumes inv: "replacer_inv r" and slot: "slot_of r (-1) = Some i"
  shows "replacer_inv (r\<lparr>frame_ids := (frame_ids r)[i := f], pinned := (pinned r)[i := b],
                          ref_bits := (ref_bits r)[i := False],
                          size_r := min (size_r r + 1) (max_size r)\<rparr>)"
proof -
  from first_empty_le_size [OF inv slot] have i: "i < min (size_r r + 1) (max_size r)" .
  from inv have wf: "replacer_wf r"
    and cov: "\<And>j. j < max_size r \<Longrightarrow> frame_ids r ! j \<noteq> -1 \<Longrightarrow> j < size_r r"
    by (auto simp: replacer_inv_unfold)
  have "j < min (size_r r + 1) (max_size r)"
    if "j < max_size r" "(frame_ids r)[i := f] ! j \<noteq> -1" for j
  proof (cases "j = i")
    case True
    with i show ?thesis by simp
  next
    case False
    with that cov [of j] show ?thesis by simp
  qed
  moreover from wf i have "replacer_wf (r\<lparr>frame_ids := (frame_ids r)[i := f],
      pinned := (pinned r)[i := b], ref_bits := (ref_bits r)[i := False],
      size_r := min (size_r r + 1) (max_size r)\<rparr>)"
    by (auto simp: replacer_wf_def)
  ultimately show ?thesis by (simp add: replacer_inv_unfold)
qed

lemma replacer_inv_Pin: "replacer_inv r \<Longrightarrow> replacer_inv (Pin r f)"
proof (cases "slot_of r f")
  case (Some i)
  assume "replacer_inv r"
  with Some show ?thesis by (simp add: Pin_def replacer_inv_unfold replacer_wf_def)
next
  case None
  assume inv: "replacer_inv r"
  show ?thesis
  proof (cases "slot_of r (-1)")
    case n: None
    with None inv show ?thesis by (simp add: Pin_def)
  next
    case (Some i)
    with None replacer_inv_register [OF inv Some, where f = f and b = True] show ?thesis by (simp add: Pin_def)
  qed
qed

lemma replacer_inv_Unpin: "replacer_inv r \<Longrightarrow> replacer_inv (Unpin r f)"
proof (cases "slot_of r f")
  case (Some i)
  assume "replacer_inv r"
  with Some show ?thesis by (simp add: Unpin_def replacer_inv_unfold replacer_wf_def)
next
  case None
  assume inv: "replacer_inv r"
  show ?thesis
  proof (cases "slot_of r (-1)")
    case n: None
    with None inv show ?thesis by (simp add: Unpin_def)
  next
    case (Some i)
    with None replacer_inv_register [OF inv Some, where f = f and b = False] show ?thesis by (simp add: Unpin_def)
  qed
qed

text \<open>A \<open>Victim\<close> that answers \<open>true\<close> has swept, and one that answers \<open>false\<close> has done nothing.\<close>

lemma Victim_true_swept:
  assumes wf: "replacer_wf r" and v: "Victim r = Some (Some f, r')"
  shows "swept r f r'"
proof (cases "list_all (\<lambda>i. \<not> slot_evictable r i) [0..<size_r r]")
  case True
  from v have "0 < size_r r" "pinned_cnt r \<noteq> size_r r" by (auto simp: Victim_def split: if_splits)
  from Victim_hangs [OF wf this True] v show ?thesis by simp
next
  case False
  then obtain i where "slot_evictable r i" by (auto simp: list_all_iff)
  from Victim_returns [OF wf this] v show ?thesis by auto
qed

lemma replacer_inv_Victim:
  assumes inv: "replacer_inv r" and v: "Victim r = Some (x, r')"
  shows "replacer_inv r'"
proof (cases x)
  case None
  with v have "r' = r" by (auto simp: Victim_def split: if_splits)
  with inv show ?thesis by simp
next
  case (Some f)
  from inv have wf: "replacer_wf r"
    and cov: "\<And>j. j < max_size r \<Longrightarrow> frame_ids r ! j \<noteq> -1 \<Longrightarrow> j < size_r r"
    by (auto simp: replacer_inv_unfold)
  from Victim_true_swept [OF wf] v Some obtain i where i: "slot_evictable r i"
    and r': "frame_ids r' = (frame_ids r)[i := -1]" "pinned r' = pinned r"
      "length (ref_bits r') = length (ref_bits r)" "max_size r' = max_size r"
      "size_r r' = size_r r" "now r' = (i + 1) mod size_r r"
    by (auto simp: swept_def)
  from i have pos: "0 < size_r r" by (auto simp: slot_evictable_def)
  then have "now r' < max 1 (size_r r')" by (simp add: r')
  with wf have "replacer_wf r'" by (simp add: replacer_wf_def r')
  moreover have "j < size_r r'" if "j < max_size r'" "frame_ids r' ! j \<noteq> -1" for j
  proof (cases "j = i")
    case True
    with i show ?thesis by (simp add: slot_evictable_def r')
  next
    case False
    with that cov [of j] show ?thesis by (simp add: r')
  qed
  ultimately show ?thesis by (simp add: replacer_inv_unfold)
qed

text \<open>
  On a state of the replacer's own making: with an evictable frame \<open>Victim\<close> answers
  \<open>true\<close>, having swept; with none it answers \<open>false\<close> only if no slot below \<open>size_r\<close>
  is empty, and never returns otherwise.
\<close>

lemma Size_pos_evictable:
  assumes "replacer_inv r" and "0 < Size r"
  shows "\<exists>i. slot_evictable r i"
proof -
  from assms(2) have "filter (\<lambda>i. frame_ids r ! i \<noteq> -1 \<and> \<not> pinned r ! i) [0..<max_size r] \<noteq> []"
    by (simp add: Size_def)
  then obtain i where "i < max_size r" "frame_ids r ! i \<noteq> -1" "\<not> pinned r ! i"
    by (auto simp: filter_empty_conv)
  with assms(1) have "slot_evictable r i" by (simp add: replacer_inv_unfold slot_evictable_def)
  then show ?thesis ..
qed

lemma Victim_with_evictable:
  assumes "replacer_inv r" and "0 < Size r"
  shows "\<exists>f r'. Victim r = Some (Some f, r') \<and> swept r f r'"
proof -
  from Size_pos_evictable [OF assms] obtain i where "slot_evictable r i" ..
  moreover from assms(1) have "replacer_wf r" by (simp add: replacer_inv_unfold)
  ultimately show ?thesis by (intro Victim_returns)
qed

lemma Victim_without_evictable:
  assumes inv: "replacer_inv r" and none: "Size r = 0"
  shows "Victim r = (if list_ex (\<lambda>i. frame_ids r ! i = -1) [0..<size_r r] then None
                     else Some (None, r))"
proof -
  from inv have wf: "replacer_wf r" by (simp add: replacer_inv_unfold)
  then have le: "size_r r \<le> max_size r" by (simp add: replacer_wf_def)
  from none have "filter (\<lambda>i. frame_ids r ! i \<noteq> -1 \<and> \<not> pinned r ! i) [0..<max_size r] = []"
    by (simp add: Size_def)
  then have no: "\<And>i. i < max_size r \<Longrightarrow> frame_ids r ! i = -1 \<or> pinned r ! i"
    by (auto simp: filter_empty_conv)
  with le have noev: "list_all (\<lambda>i. \<not> slot_evictable r i) [0..<size_r r]"
    by (auto simp: list_all_iff slot_evictable_def)
  show ?thesis
  proof (cases "list_ex (\<lambda>i. frame_ids r ! i = -1) [0..<size_r r]")
    case True
    then obtain i where i: "i < size_r r" "frame_ids r ! i = -1" by (auto simp: list_ex_iff)
    then have "i \<in> set [0..<size_r r]" "\<not> (frame_ids r ! i \<noteq> -1 \<and> pinned r ! i)" by simp_all
    then have "pinned_cnt r < length [0..<size_r r]"
      unfolding pinned_cnt_def by (rule length_filter_less)
    then have "pinned_cnt r \<noteq> size_r r" by simp
    moreover from i have "0 < size_r r" by simp
    ultimately have "Victim r = None" using wf noev by (intro Victim_hangs)
    with True show ?thesis by simp
  next
    case False
    then have full: "\<And>i. i < size_r r \<Longrightarrow> frame_ids r ! i \<noteq> -1" by (auto simp: list_ex_iff)
    have "frame_ids r ! i \<noteq> -1 \<and> pinned r ! i" if "i < size_r r" for i
    proof -
      from that le have "i < max_size r" by simp
      from no [OF this] full [OF that] show ?thesis by simp
    qed
    then have "filter (\<lambda>i. frame_ids r ! i \<noteq> -1 \<and> pinned r ! i) [0..<size_r r] = [0..<size_r r]"
      by (intro filter_True) simp
    then have "pinned_cnt r = size_r r" by (simp add: pinned_cnt_def)
    with False show ?thesis by (simp add: Victim_def)
  qed
qed

text \<open>
  C2 at a state the replacer reaches on its own.  A one-slot replacer after \<open>Unpin(0)\<close>
  holds frame 0, evictable; \<open>Victim\<close> returns it and leaves the slot empty with \<open>size_\<close>
  still 1.  Now \<open>Size\<close> is 0, yet \<open>pinned_cnt\<close> (0) differs from \<open>size_\<close> (1), so the next
  \<open>Victim\<close> enters the sweep, which skips the empty slot for ever: the call never returns.
\<close>

theorem Victim_never_returns_after_eviction:
  "Victim (Unpin (ClockReplacer 1) 0) =
     Some (Some 0, \<lparr>frame_ids = [-1], pinned = [False], ref_bits = [False],
                    max_size = 1, now = 0, size_r = 1\<rparr>) \<and>
   Size \<lparr>frame_ids = [-1], pinned = [False], ref_bits = [False],
         max_size = 1, now = 0, size_r = 1\<rparr> = 0 \<and>
   Victim \<lparr>frame_ids = [-1], pinned = [False], ref_bits = [False],
           max_size = 1, now = 0, size_r = 1\<rparr> = None"
proof -
  let ?r = "\<lparr>frame_ids = [-1], pinned = [False], ref_bits = [False],
             max_size = 1, now = 0, size_r = 1\<rparr>"
  have first: "Victim (Unpin (ClockReplacer 1) 0) = Some (Some 0, ?r)"
    by (simp add: Unpin_def slot_of_def ClockReplacer_def Victim_def pinned_cnt_def
        victim_sweep.simps)
  have size: "Size ?r = 0" by (simp add: Size_def)
  have "x \<noteq> ?r" if run: "victim_sweep x = Some y" for x y
  proof (rule victim_sweep.raw_induct [where P = "\<lambda>x y. x \<noteq> ?r", OF _ run])
    fix f x y
    assume IH: "\<And>x y. f x = Some y \<Longrightarrow> x \<noteq> ?r"
      and body: "(if pinned x ! now x \<or> frame_ids x ! now x = -1
          then f (x\<lparr>now := (now x + 1) mod size_r x\<rparr>)
          else if ref_bits x ! now x
          then f (x\<lparr>ref_bits := (ref_bits x)[now x := False],
                     now := (now x + 1) mod size_r x\<rparr>)
          else Some (frame_ids x ! now x,
                     x\<lparr>frame_ids := (frame_ids x)[now x := -1],
                       now := (now x + 1) mod size_r x\<rparr>)) = Some y"
    show "x \<noteq> ?r"
    proof
      assume "x = ?r"
      with body have "f ?r = Some y" by simp
      with IH show False by blast
    qed
  qed
  then have "victim_sweep ?r = None" by (cases "victim_sweep ?r") auto
  then have "Victim ?r = None" by (simp add: Victim_def pinned_cnt_def)
  with first size show ?thesis by simp
qed

section \<open>Calls and runs\<close>

text \<open>\<open>NewPgImp\<close> and \<open>FetchPgImp\<close> by the cases of the free list.\<close>

lemma NewPgImp_alt:
  "NewPgImp s =
     (if list_all (\<lambda>i. \<not> pin_count (pages s ! i) \<le> 0) [0..<pool_size s] then Inr (None, s)
      else
        (case free_list s of
           [] \<Rightarrow> NewPg_victim s
         | f # fl \<Rightarrow>
             if f = -1 then NewPg_victim (s\<lparr>free_list := fl\<rparr>)
             else NewPg_install f (s\<lparr>free_list := fl\<rparr>)))"
  by (simp add: NewPgImp_def pop_free_def split: list.splits)

lemma FetchPgImp_alt:
  "FetchPgImp pid s =
     (case map_of (page_table s) pid of
        Some frame_id \<Rightarrow>
          if \<not> in_pool s frame_id then Inl OutOfRange
          else if 0 < pin_count (pages s ! nat frame_id) then Inr (None, s)
          else Inr (Some frame_id,
                    s\<lparr>pages := (pages s)[nat frame_id :=
                                  (pages s ! nat frame_id)
                                    \<lparr>pin_count := pin_count (pages s ! nat frame_id) + 1\<rparr>],
                      replacer := Pin (replacer s) frame_id\<rparr>)
      | None \<Rightarrow>
          (case free_list s of
             f # fl \<Rightarrow>
               if f = -1
               then (case Victim (replacer s) of
                       None \<Rightarrow> Inl NoReturn
                     | Some (None, r') \<Rightarrow> Inr (None, s\<lparr>free_list := fl, replacer := r'\<rparr>)
                     | Some (Some v, r') \<Rightarrow>
                         FetchPg_install pid v (s\<lparr>free_list := fl, replacer := r'\<rparr>))
               else FetchPg_install pid f (s\<lparr>free_list := fl\<rparr>)
           | [] \<Rightarrow>
               (case Victim (replacer s) of
                  None \<Rightarrow> Inl NoReturn
                | Some (None, r') \<Rightarrow> Inr (None, s\<lparr>replacer := r'\<rparr>)
                | Some (Some v, r') \<Rightarrow> FetchPg_install pid v (s\<lparr>replacer := r'\<rparr>))))"
  by (simp add: FetchPgImp_def pop_free_def split: list.splits option.splits)

lemmas bp_defs = fresh_def BufferPoolManagerInstance_def ClockReplacer_def
  NewPgImp_alt NewPg_install_def NewPg_victim_def FetchPgImp_alt FetchPg_install_def
  UnpinPgImp_def DeletePgImp_def FlushPgImp_def AllocatePage_def ValidatePageId_def
  in_pool_def Pin_def Unpin_def Victim_def pinned_cnt_def WritePage_def ReadPage_def
  DeallocatePage_def slot_of_def

lemmas scenario_defs = bp_defs Page_def INVALID_PAGE_ID_def ResetMemory_def upt_rec
  victim_sweep.simps

lemma step_Inr_cases:
  assumes "step q s = Inr (a, s')"
  obtains
    (NewPage) x where "q = NewPage" "NewPgImp s = Inr (x, s')" "a = NewFrame x"
  | (FetchPage) p x where "q = FetchPage p" "FetchPgImp p s = Inr (x, s')" "a = Frame x"
  | (UnpinPage) p d x where "q = UnpinPage p d" "UnpinPgImp p d s = Inr (x, s')" "a = Flag x"
  | (FlushPage) p x where "q = FlushPage p" "FlushPgImp p s = Inr (x, s')" "a = Flag x"
  | (FlushAllPages) "q = FlushAllPages" "FlushAllPgsImp s = Inr ((), s')" "a = Unit"
  | (DeletePage) p x where "q = DeletePage p" "DeletePgImp p s = Inr (x, s')" "a = Flag x"
proof (cases q)
  case NewPage
  with assms that(1) show ?thesis by (cases "NewPgImp s") (simp_all, force)
next
  case (FetchPage p)
  with assms that(2) show ?thesis by (cases "FetchPgImp p s") (simp_all, force)
next
  case (UnpinPage p d)
  with assms that(3) show ?thesis by (cases "UnpinPgImp p d s") (simp_all, force)
next
  case (FlushPage p)
  with assms that(4) show ?thesis by (cases "FlushPgImp p s") (simp_all, force)
next
  case FlushAllPages
  with assms that(5) show ?thesis by (cases "FlushAllPgsImp s") (simp_all, force)
next
  case (DeletePage p)
  with assms that(6) show ?thesis by (cases "DeletePgImp p s") (simp_all, force)
qed

lemma run_preserves:
  assumes stp: "\<And>q s a s'. P s \<Longrightarrow> step q s = Inr (a, s') \<Longrightarrow> P s'"
  shows "P s \<Longrightarrow> run qs (Inr (out, s)) = Inr (out', s') \<Longrightarrow> P s'"
proof (induction qs arbitrary: out s)
  case Nil
  then show ?case by simp
next
  case (Cons q qs)
  show ?case
  proof (cases "step q s")
    case (Inl e)
    with Cons.prems(2) show ?thesis by (cases qs) simp_all
  next
    case (Inr y)
    obtain a t where y: "y = (a, t)" by (cases y)
    from Cons.prems(1) Inr y have "P t" by (auto intro: stp)
    moreover from Cons.prems(2) Inr y have "run qs (Inr (out @ [a], t)) = Inr (out', s')" by simp
    ultimately show ?thesis by (rule Cons.IH)
  qed
qed

lemma fresh_Inr:
  "fresh psize n idx d = Inr (out, s) \<Longrightarrow>
     out = [] \<and> 0 < n \<and> idx < n \<and>
     s = \<lparr>pool_size = psize, num_instances = n, instance_index = idx, next_page_id = idx,
          pages = replicate psize Page, page_table = [], free_list = map int [0..<psize],
          replacer = ClockReplacer psize, disk = d, deallocated = []\<rparr>"
  by (auto simp: fresh_def BufferPoolManagerInstance_def split: if_splits)

lemma run_NewPage_one_pinned:
  "run [NewPage] (fresh 1 1 0 blank_disk) = Inr ([NewFrame (Some (0, 0))], one_pinned)"
  by (simp add: bp_defs Page_def INVALID_PAGE_ID_def ResetMemory_def one_pinned_def)

text \<open>What \<open>NewPg_install\<close> and \<open>FetchPg_install\<close> return, field by field.\<close>

lemma NewPg_install_Inr:
  assumes "NewPg_install f s = Inr (x, s')"
  shows "in_pool s f \<and> x = Some (sint (next_page_id s), f) \<and>
         (\<exists>pg. page_id pg = sint (next_page_id s) \<and>
            s' = s\<lparr>next_page_id := next_page_id s + num_instances s,
                   pages := (pages s)[nat f := pg],
                   page_table := AList.update (sint (next_page_id s)) f (page_table s),
                   replacer := Pin (replacer s) f\<rparr>)"
proof -
  let ?pg = "(ResetMemory ((pages s ! nat f)\<lparr>page_id := sint (next_page_id s)\<rparr>))
      \<lparr>is_dirty := True, pin_count := 1\<rparr>"
  from assms have "in_pool s f" "x = Some (sint (next_page_id s), f)"
    and "s' = s\<lparr>next_page_id := next_page_id s + num_instances s,
                   pages := (pages s)[nat f := ?pg],
                   page_table := AList.update (sint (next_page_id s)) f (page_table s),
                   replacer := Pin (replacer s) f\<rparr>"
    by (auto simp: NewPg_install_def AllocatePage_def Let_def in_pool_def split: if_splits)
  moreover have "page_id ?pg = sint (next_page_id s)" by (simp add: ResetMemory_def)
  ultimately show ?thesis by blast
qed

lemma FetchPg_install_Inr:
  assumes "FetchPg_install p f s = Inr (x, s')"
  shows "in_pool s f \<and> x = Some f \<and>
         (\<exists>pg dk. page_id pg = p \<and>
            s' = s\<lparr>disk := dk,
                   page_table := AList.update p f
                     (AList.delete (page_id (pages s ! nat f)) (page_table s)),
                   pages := (pages s)[nat f := pg],
                   replacer := Pin (replacer s) f\<rparr>)"
proof -
  let ?old = "pages s ! nat f"
  let ?s1 = "if is_dirty ?old then WritePage (page_id ?old) (data ?old) s else s"
  let ?s2 = "?s1\<lparr>page_table := AList.update p f (AList.delete (page_id ?old) (page_table ?s1))\<rparr>"
  let ?pg = "((ResetMemory ?old)\<lparr>data := ReadPage p ?s2\<rparr>)
      \<lparr>page_id := p, pin_count := 1, is_dirty := False\<rparr>"
  from assms have a: "in_pool s f" "x = Some f"
    and "s' = ?s2\<lparr>pages := (pages ?s2)[nat f := ?pg], replacer := Pin (replacer ?s2) f\<rparr>"
    by (auto simp: FetchPg_install_def Let_def split: if_splits)
  then have "s' = s\<lparr>disk := disk ?s1,
                   page_table := AList.update p f
                     (AList.delete (page_id (pages s ! nat f)) (page_table s)),
                   pages := (pages s)[nat f := ?pg],
                   replacer := Pin (replacer s) f\<rparr>"
    by (simp add: WritePage_def)
  moreover have "page_id ?pg = p" by simp
  ultimately show ?thesis using a by blast
qed

section \<open>A fetch of a resident page\<close>

text \<open>
  C1 at the failing input.  After \<open>NewPage\<close> on a one-frame instance, page 0 is resident
  with pin count 1.  \<open>FetchPage(0)\<close> finds it in the page table and, the pin count being
  positive, returns no frame and changes nothing: the pin count stays 1, where the claim
  (and the source's own comment 1.1) has the page pinned again and returned.
\<close>

theorem FetchPgImp_refuses_pinned_hit:
  "run [NewPage] (fresh 1 1 0 blank_disk) = Inr ([NewFrame (Some (0, 0))], one_pinned) \<and>
   map_of (page_table one_pinned) 0 = Some 0 \<and>
   pin_count (pages one_pinned ! 0) = 1 \<and>
   FetchPgImp 0 one_pinned = Inr (None, one_pinned)"
  by (simp add: bp_defs Page_def INVALID_PAGE_ID_def ResetMemory_def one_pinned_def)

section \<open>Page-id allocation\<close>

text \<open>
  The counter after \<open>j\<close> additions of the stride, as long as the sum stays below
  \<open>2\<^sup>3\<^sup>2\<close>: its unsigned reading is the sum, its remainder by the stride is the index,
  and as long as the sum is at most \<open>2\<^sup>3\<^sup>1 - 1\<close> the page id it denotes is the sum.
\<close>

lemma len32: "LENGTH(32) = 32"
  by simp

lemma stride_of_nat:
  "idx + word_of_nat j * n = (word_of_nat (unat idx + j * unat n) :: 32 word)"
  by simp

lemma stride_unat:
  assumes "unat idx + j * unat n < 2 ^ 32"
  shows "unat (idx + word_of_nat j * n :: 32 word) = unat idx + j * unat n"
proof -
  have "unat (idx + word_of_nat j * n) = unat (word_of_nat (unat idx + j * unat n) :: 32 word)"
    by (simp only: stride_of_nat)
  also have "\<dots> = (unat idx + j * unat n) mod 2 ^ 32" by (simp only: unat_of_nat len32)
  also have "\<dots> = unat idx + j * unat n" using assms by (rule mod_less)
  finally show ?thesis .
qed

lemma stride_valid:
  assumes "idx < n" and "unat idx + j * unat n < 2 ^ 32"
  shows "(idx + word_of_nat j * n :: 32 word) mod n = idx"
proof -
  from assms(1) have "unat idx < unat n" by (simp add: word_less_nat_alt)
  then have "(unat idx + j * unat n) mod unat n = unat idx" by simp
  then have "unat ((idx + word_of_nat j * n) mod n) = unat idx"
    by (simp add: unat_mod stride_unat [OF assms(2)])
  then show ?thesis by (simp add: word_unat_eq_iff)
qed

lemma stride_bound:
  assumes "uint idx + int j * uint n \<le> 2147483647"
  shows "unat idx + j * unat (n::32 word) < 2 ^ 32"
proof -
  have u: "int (unat idx + j * unat n) = uint idx + int j * uint n" by simp
  with assms have "int (unat idx + j * unat n) < 2 ^ 32" by simp
  then show ?thesis by (simp only: of_nat_less_numeral_power_cancel_iff)
qed

lemma stride_sint:
  assumes "uint idx + int j * uint n \<le> 2147483647"
  shows "sint (idx + word_of_nat j * n :: 32 word) = uint idx + int j * uint n"
proof -
  have u: "int (unat idx + j * unat n) = uint idx + int j * uint n" by simp
  have "uint (idx + word_of_nat j * n) = int (unat (idx + word_of_nat j * n))" by simp
  also have "\<dots> = uint idx + int j * uint n"
    unfolding stride_unat [OF stride_bound [OF assms]] by (rule u)
  finally have v: "uint (idx + word_of_nat j * n) = uint idx + int j * uint n" .
  have "- (2 ^ 31) \<le> (0::int)" by simp
  also have "0 \<le> uint idx + int j * uint n" by simp
  finally have "- (2 ^ 31) \<le> uint idx + int j * uint n" .
  moreover from assms have "uint idx + int j * uint n < 2 ^ 31" by simp
  ultimately
  have "signed_take_bit 31 (uint idx + int j * uint n) = uint idx + int j * uint n"
    by (rule signed_take_bit_int_eq_self)
  with v show ?thesis by (simp add: sint_uint)
qed

text \<open>
  \<open>AllocatePage\<close> passes its assertion exactly when the counter has the remainder of the
  index.
\<close>

lemma AllocatePage_eq:
  "AllocatePage s =
     (if next_page_id s mod num_instances s = instance_index s
      then Inr (sint (next_page_id s), s\<lparr>next_page_id := next_page_id s + num_instances s\<rparr>)
      else Inl AssertionFailure)"
  by (simp add: AllocatePage_def ValidatePageId_def Let_def)

lemma stride_Cons:
  "map (\<lambda>j. g (a + word_of_nat j * n)) [0..<Suc k] =
     g a # map (\<lambda>j. g ((a + n) + word_of_nat j * n)) [0..<k]"
  for a n :: "32 word"
  by (simp add: upt_conv_Cons map_Suc_upt [symmetric] algebra_simps del: upt_Suc)

lemma AllocatePages_stride:
  assumes "instance_index s < num_instances s"
    and "next_page_id s = instance_index s + word_of_nat m * num_instances s"
    and "\<And>j. j < k \<Longrightarrow>
       unat (instance_index s) + (m + j) * unat (num_instances s) < 2 ^ 32"
  shows "AllocatePages k s =
     Inr (map (\<lambda>j. sint (next_page_id s + word_of_nat j * num_instances s)) [0..<k],
          s\<lparr>next_page_id := next_page_id s + word_of_nat k * num_instances s\<rparr>)"
  using assms
proof (induction k arbitrary: s m)
  case 0
  then show ?case by simp
next
  case (Suc k)
  let ?s1 = "s\<lparr>next_page_id := next_page_id s + num_instances s\<rparr>"
  from Suc.prems(3) [of 0]
  have "unat (instance_index s) + m * unat (num_instances s) < 2 ^ 32" by simp
  with Suc.prems(1) have "next_page_id s mod num_instances s = instance_index s"
    unfolding Suc.prems(2) by (rule stride_valid)
  then have a: "AllocatePage s = Inr (sint (next_page_id s), ?s1)"
    by (simp add: AllocatePage_eq)
  have "next_page_id ?s1 = instance_index ?s1 + word_of_nat (Suc m) * num_instances ?s1"
    using Suc.prems(2) by (simp add: algebra_simps)
  moreover have "unat (instance_index ?s1) + (Suc m + j) * unat (num_instances ?s1) < 2 ^ 32"
    if "j < k" for j
    using Suc.prems(3) [of "Suc j"] that by simp
  ultimately have "AllocatePages k ?s1 =
     Inr (map (\<lambda>j. sint (next_page_id ?s1 + word_of_nat j * num_instances ?s1)) [0..<k],
          ?s1\<lparr>next_page_id := next_page_id ?s1 + word_of_nat k * num_instances ?s1\<rparr>)"
    using Suc.prems(1) by (intro Suc.IH [of ?s1 "Suc m"]) simp_all
  then show ?case
    using a by (simp add: stride_Cons [where g = sint] algebra_simps del: upt_Suc)
qed

lemma new_ids_append: "new_ids (xs @ ys) = new_ids xs @ new_ids ys"
  by (induction xs rule: new_ids.induct) simp_all

text \<open>What each call does to the counter.\<close>

lemma FlushPgImp_counter:
  "FlushPgImp p s = Inr (b, s') \<Longrightarrow>
     num_instances s' = num_instances s \<and> instance_index s' = instance_index s \<and>
     next_page_id s' = next_page_id s"
  by (auto simp: FlushPgImp_def WritePage_def Let_def split: option.splits if_splits)

lemma NewPg_install_counter:
  "NewPg_install f s = Inr (x, s') \<Longrightarrow>
     num_instances s' = num_instances s \<and> instance_index s' = instance_index s \<and>
     x = Some (sint (next_page_id s), f) \<and>
     next_page_id s' = next_page_id s + num_instances s"
  by (auto dest!: NewPg_install_Inr)

lemma NewPg_victim_counter:
  assumes "NewPg_victim s = Inr (x, s')"
  shows "num_instances s' = num_instances s \<and> instance_index s' = instance_index s \<and>
     (x = None \<and> next_page_id s' = next_page_id s \<or>
      (\<exists>f. x = Some (sint (next_page_id s), f)) \<and>
      next_page_id s' = next_page_id s + num_instances s)"
  using assms
  by (auto simp: NewPg_victim_def Let_def split: option.splits sum.splits prod.splits if_splits
      dest!: NewPg_install_counter FlushPgImp_counter)

lemma NewPgImp_counter:
  assumes "NewPgImp s = Inr (x, s')"
  shows "num_instances s' = num_instances s \<and> instance_index s' = instance_index s \<and>
     (x = None \<and> next_page_id s' = next_page_id s \<or>
      (\<exists>f. x = Some (sint (next_page_id s), f)) \<and>
      next_page_id s' = next_page_id s + num_instances s)"
  using assms
  by (auto simp: NewPgImp_alt split: list.splits if_splits
      dest!: NewPg_install_counter NewPg_victim_counter)

lemma FetchPgImp_counter:
  "FetchPgImp p s = Inr (x, s') \<Longrightarrow>
     num_instances s' = num_instances s \<and> instance_index s' = instance_index s \<and>
     next_page_id s' = next_page_id s"
  by (auto simp: FetchPgImp_alt split: list.splits if_splits option.splits prod.splits
      dest!: FetchPg_install_Inr)

lemma step_counter:
  assumes "step q s = Inr (a, s')"
  shows "num_instances s' = num_instances s \<and> instance_index s' = instance_index s \<and>
     (new_ids [a] = [] \<and> next_page_id s' = next_page_id s \<or>
      new_ids [a] = [sint (next_page_id s)] \<and>
      next_page_id s' = next_page_id s + num_instances s)"
  using assms
proof (cases rule: step_Inr_cases)
  case (NewPage x)
  from NewPgImp_counter [OF NewPage(2)] NewPage(3) show ?thesis by auto
next
  case (FetchPage p x)
  from FetchPgImp_counter [OF FetchPage(2)] FetchPage(3) show ?thesis by simp
next
  case (UnpinPage p d x)
  then show ?thesis by (auto simp: UnpinPgImp_def Let_def split: if_splits option.splits)
next
  case (FlushPage p x)
  from FlushPgImp_counter [OF FlushPage(2)] FlushPage(3) show ?thesis by simp
next
  case FlushAllPages
  have "num_instances (fold (\<lambda>(p, f) t. WritePage p (data (pages t ! nat f)) t) xs t) =
        num_instances t \<and>
      instance_index (fold (\<lambda>(p, f) t. WritePage p (data (pages t ! nat f)) t) xs t) =
        instance_index t \<and>
      next_page_id (fold (\<lambda>(p, f) t. WritePage p (data (pages t ! nat f)) t) xs t) =
        next_page_id t"
    for xs t by (induction xs arbitrary: t) (auto simp: WritePage_def)
  with FlushAllPages show ?thesis by (auto simp: FlushAllPgsImp_def split: if_splits)
next
  case (DeletePage p x)
  then show ?thesis
    by (auto simp: DeletePgImp_def DeallocatePage_def split: if_splits option.splits)
qed

text \<open>
  In a run the ids that \<open>NewPage\<close> returns are what the counter denotes after 0, 1, 2,
  ... additions of the stride, in 32 bits.
\<close>

lemma run_new_ids:
  assumes "run qs (Inr (out, s)) = Inr (out', s')"
  shows "\<exists>k. new_ids out' =
           new_ids out @
           map (\<lambda>j. sint (next_page_id s + word_of_nat j * num_instances s)) [0..<k] \<and>
         next_page_id s' = next_page_id s + word_of_nat k * num_instances s"
  using assms
proof (induction qs arbitrary: out s)
  case Nil
  then have "out' = out" "s' = s" by simp_all
  then show ?case by (intro exI [of _ 0]) simp
next
  case (Cons q qs)
  show ?case
  proof (cases "step q s")
    case (Inl e)
    with Cons.prems show ?thesis by (cases qs) simp_all
  next
    case (Inr y)
    obtain a t where y: "y = (a, t)" by (cases y)
    from Cons.prems Inr y have "run qs (Inr (out @ [a], t)) = Inr (out', s')" by simp
    from Cons.IH [OF this] obtain k where
      ids: "new_ids out' = new_ids (out @ [a]) @
              map (\<lambda>j. sint (next_page_id t + word_of_nat j * num_instances t)) [0..<k]"
      and nxt: "next_page_id s' = next_page_id t + word_of_nat k * num_instances t"
      by blast
    from step_counter [of q s a t] Inr y
    have n: "num_instances t = num_instances s"
      and alt: "new_ids [a] = [] \<and> next_page_id t = next_page_id s \<or>
        new_ids [a] = [sint (next_page_id s)] \<and>
        next_page_id t = next_page_id s + num_instances s"
      by simp_all
    from alt show ?thesis
    proof
      assume "new_ids [a] = [] \<and> next_page_id t = next_page_id s"
      with ids nxt n show ?thesis by (intro exI [of _ k]) (simp add: new_ids_append)
    next
      assume b: "new_ids [a] = [sint (next_page_id s)] \<and>
          next_page_id t = next_page_id s + num_instances s"
      with ids nxt n show ?thesis
        by (intro exI [of _ "Suc k"])
          (simp add: new_ids_append stride_Cons [where g = sint] algebra_simps del: upt_Suc)
    qed
  qed
qed

lemma fresh_new_ids:
  assumes "run qs (fresh psize n idx d) = Inr (out, s)"
  shows "new_ids out = map (\<lambda>j. sint (idx + word_of_nat j * n)) [0..<length (new_ids out)]"
proof (cases "fresh psize n idx d")
  case (Inl e)
  with assms show ?thesis by (cases qs) simp_all
next
  case (Inr y)
  obtain out0 s0 where y: "y = (out0, s0)" by (cases y)
  from fresh_Inr [of psize n idx d out0 s0] Inr y
  have s0: "out0 = []" "next_page_id s0 = idx" "num_instances s0 = n" by simp_all
  from assms Inr y have "run qs (Inr (out0, s0)) = Inr (out, s)" by simp
  from run_new_ids [OF this] s0 obtain k where
    "new_ids out = map (\<lambda>j. sint (idx + word_of_nat j * n)) [0..<k]" by auto
  moreover from this have "length (new_ids out) = k" by simp
  ultimately show ?thesis by simp
qed

text \<open>
  C5, as the code has it.  A page id is a signed integer of 32 bits, so the sequence
  \<open>index\<close>, \<open>index + n\<close>, \<open>index + 2n\<close>, ... is the sequence of ids only as far as
  its members are at most \<open>2\<^sup>3\<^sup>1 - 1 = 2147483647\<close>.  If the first \<open>k\<close> members are, then
  \<open>k\<close> successive \<open>AllocatePage\<close> calls on a constructed instance return them (so no
  assertion of \<open>ValidatePageId\<close> fails), each of them congruent to the instance index
  modulo the number of instances; and in every run of calls from the fresh instance that
  has at most \<open>k\<close> successful \<open>NewPage\<close> calls, the ids that \<open>NewPage\<close> returns are, in
  order, the first members of the sequence.  With four instances, index 2 and three frames
  the first three \<open>NewPage\<close> calls return the ids 2, 6 and 10 (in frames 0, 1 and 2).
\<close>

theorem AllocatePage_sequence:
  assumes "BufferPoolManagerInstance psize n idx d = Inr s"
    and fit: "\<And>j. j < k \<Longrightarrow> uint idx + int j * uint n \<le> 2147483647"
  shows "(\<exists>s'. AllocatePages k s = Inr (map (\<lambda>j. uint idx + int j * uint n) [0..<k], s')) \<and>
         (\<forall>p \<in> set (map (\<lambda>j. uint idx + int j * uint n) [0..<k]). p mod uint n = uint idx) \<and>
         (\<forall>qs out t. run qs (Inr ([], s)) = Inr (out, t) \<longrightarrow> length (new_ids out) \<le> k \<longrightarrow>
            new_ids out = map (\<lambda>j. uint idx + int j * uint n) [0..<length (new_ids out)]) \<and>
         map_sum id fst (run [NewPage, NewPage, NewPage] (fresh 3 4 2 d)) =
           Inr [NewFrame (Some (2, 0)), NewFrame (Some (6, 1)), NewFrame (Some (10, 2))]"
proof -
  from assms(1) have n: "0 < n" "idx < n"
    and s: "num_instances s = n" "instance_index s = idx" "next_page_id s = idx"
    by (auto simp: BufferPoolManagerInstance_def split: if_splits)
  have ids: "map (\<lambda>j. sint (idx + word_of_nat j * n)) [0..<m] =
      map (\<lambda>j. uint idx + int j * uint n) [0..<m]" if "m \<le> k" for m
  proof (rule map_cong [OF refl])
    fix j assume "j \<in> set [0..<m]"
    with that have "j < k" by simp
    from stride_sint [OF fit [OF this]]
    show "sint (idx + word_of_nat j * n) = uint idx + int j * uint n" .
  qed
  have "AllocatePages k s =
     Inr (map (\<lambda>j. sint (next_page_id s + word_of_nat j * num_instances s)) [0..<k],
          s\<lparr>next_page_id := next_page_id s + word_of_nat k * num_instances s\<rparr>)"
  proof (rule AllocatePages_stride [where m = 0])
    show "instance_index s < num_instances s" using n s by simp
    show "next_page_id s = instance_index s + word_of_nat 0 * num_instances s" using s by simp
    show "unat (instance_index s) + (0 + j) * unat (num_instances s) < 2 ^ 32" if "j < k" for j
      using stride_bound [OF fit [OF that]] s by simp
  qed
  then have 1: "\<exists>s'. AllocatePages k s = Inr (map (\<lambda>j. uint idx + int j * uint n) [0..<k], s')"
    unfolding s ids [OF order_refl] by blast
  from n(2) have "uint idx < uint n" by (simp add: word_less_alt)
  then have 2: "\<forall>p \<in> set (map (\<lambda>j. uint idx + int j * uint n) [0..<k]). p mod uint n = uint idx"
    by auto
  from assms(1) have f: "fresh psize n idx d = Inr ([], s)" by (simp add: fresh_def)
  have 3: "\<forall>qs out t. run qs (Inr ([], s)) = Inr (out, t) \<longrightarrow> length (new_ids out) \<le> k \<longrightarrow>
      new_ids out = map (\<lambda>j. uint idx + int j * uint n) [0..<length (new_ids out)]"
  proof (intro allI impI)
    fix qs out t
    assume r: "run qs (Inr ([], s)) = Inr (out, t)" and l: "length (new_ids out) \<le> k"
    from r have "run qs (fresh psize n idx d) = Inr (out, t)" by (simp only: f)
    from fresh_new_ids [OF this]
    show "new_ids out = map (\<lambda>j. uint idx + int j * uint n) [0..<length (new_ids out)]"
      unfolding ids [OF l] .
  qed
  have 4: "map_sum id fst (run [NewPage, NewPage, NewPage] (fresh 3 4 2 d)) =
           Inr [NewFrame (Some (2, 0)), NewFrame (Some (6, 1)), NewFrame (Some (10, 2))]"
    by (simp add: scenario_defs)
  from 1 2 3 4 show ?thesis by blast
qed

text \<open>
  The theorem at three frames, four instances, index 2, three calls of \<open>AllocatePage\<close>,
  and the run of three \<open>NewPage\<close> calls.
\<close>

theorem AllocatePage_sequence_witness:
  "BufferPoolManagerInstance 3 4 2 blank_disk =
     Inr \<lparr>pool_size = 3, num_instances = 4, instance_index = 2, next_page_id = 2,
          pages = replicate 3 Page, page_table = [], free_list = map int [0..<3],
          replacer = ClockReplacer 3, disk = blank_disk, deallocated = []\<rparr> \<and>
   (\<exists>s'. AllocatePages 3
            \<lparr>pool_size = 3, num_instances = 4, instance_index = 2, next_page_id = 2,
             pages = replicate 3 Page, page_table = [], free_list = map int [0..<3],
             replacer = ClockReplacer 3, disk = blank_disk, deallocated = []\<rparr> =
          Inr ([2, 6, 10], s')) \<and>
   (\<exists>out t. run [NewPage, NewPage, NewPage]
              (Inr ([], \<lparr>pool_size = 3, num_instances = 4, instance_index = 2,
                         next_page_id = 2, pages = replicate 3 Page, page_table = [],
                         free_list = map int [0..<3], replacer = ClockReplacer 3,
                         disk = blank_disk, deallocated = []\<rparr>)) = Inr (out, t) \<and>
            new_ids out = [2, 6, 10])"
proof -
  let ?s = "\<lparr>pool_size = 3, num_instances = 4, instance_index = 2, next_page_id = 2,
          pages = replicate 3 Page, page_table = [], free_list = map int [0..<3],
          replacer = ClockReplacer 3, disk = blank_disk, deallocated = []\<rparr>"
  have h: "BufferPoolManagerInstance 3 4 2 blank_disk = Inr ?s"
    by (simp add: BufferPoolManagerInstance_def)
  have fit: "uint (2::32 word) + int j * uint (4::32 word) \<le> 2147483647" if "j < 3" for j
    using that by simp
  have m: "map (\<lambda>j. uint (2::32 word) + int j * uint (4::32 word)) [0..<3] = [2, 6, 10]"
    by (simp add: upt_rec)
  have "\<exists>out t. run [NewPage, NewPage, NewPage] (Inr ([], ?s)) = Inr (out, t) \<and>
      length (new_ids out) = 3"
    by (simp add: scenario_defs)
  then obtain out t where r: "run [NewPage, NewPage, NewPage] (Inr ([], ?s)) = Inr (out, t)"
    and l: "length (new_ids out) = 3"
    by blast
  from AllocatePage_sequence [OF h fit, of 3]
  have a: "\<exists>s'. AllocatePages 3 ?s =
      Inr (map (\<lambda>j. uint (2::32 word) + int j * uint (4::32 word)) [0..<3], s')"
    and b: "\<forall>qs out t. run qs (Inr ([], ?s)) = Inr (out, t) \<longrightarrow> length (new_ids out) \<le> 3 \<longrightarrow>
      new_ids out =
        map (\<lambda>j. uint (2::32 word) + int j * uint (4::32 word)) [0..<length (new_ids out)]"
    by blast+
  from l have "length (new_ids out) \<le> 3" by simp
  with b r have "new_ids out =
      map (\<lambda>j. uint (2::32 word) + int j * uint (4::32 word)) [0..<length (new_ids out)]"
    by blast
  with a h r show ?thesis unfolding l m by blast
qed

text \<open>
  C5 as the spec states it fails.  With \<open>2\<^sup>3\<^sup>1 = 2147483648\<close> instances and index 0, the
  second member of the sequence is 2147483648, which is no page id: the counter wraps,
  the second \<open>NewPage\<close> returns \<open>-2147483648\<close>, and the third returns 0 again.  With
  1610612736 instances and index 0 the third \<open>NewPage\<close> returns \<open>-1073741824\<close>, not
  3221225472, and that id is not congruent to the index modulo the number of instances.
  All these calls pass their assertion, since \<open>ValidatePageId\<close> takes the remainder of
  the unsigned reading.
\<close>

theorem AllocatePage_wraps_counterexample:
  "map_sum id fst (run [NewPage, NewPage, NewPage] (fresh 3 2147483648 0 blank_disk)) =
     Inr [NewFrame (Some (0, 0)), NewFrame (Some (-2147483648, 1)), NewFrame (Some (0, 2))] \<and>
   (case BufferPoolManagerInstance 3 2147483648 0 blank_disk of
      Inl e \<Rightarrow> Inl e
    | Inr s \<Rightarrow> map_sum id fst (AllocatePages 3 s)) = Inr [0, -2147483648, 0] \<and>
   map_sum id fst (run [NewPage, NewPage, NewPage] (fresh 3 1610612736 0 blank_disk)) =
     Inr [NewFrame (Some (0, 0)), NewFrame (Some (1610612736, 1)),
          NewFrame (Some (-1073741824, 2))] \<and>
   (-1073741824 :: int) mod 1610612736 = 536870912"
  by (simp add: scenario_defs numeral_3_eq_3)

section \<open>Unpinning and deleting a page\<close>

lemma Unpin_makes_evictable:
  assumes wf: "replacer_wf r" and reg: "slot_of r f \<noteq> None \<or> slot_of r (-1) \<noteq> None"
  shows "evictable (Unpin r f) f"
proof (cases "slot_of r f")
  case (Some i)
  then have i: "i < max_size r" by (simp add: slot_of_Some)
  with wf have "i < length (pinned r)" by (simp add: replacer_wf_def)
  moreover have "slot_of (r\<lparr>ref_bits := (ref_bits r)[i := True], pinned := (pinned r)[i := False]\<rparr>) f
      = slot_of r f"
    by (simp add: slot_of_def)
  ultimately show ?thesis using Some by (simp add: Unpin_def evictable_def)
next
  case None
  with reg obtain i where i: "slot_of r (-1) = Some i" by auto
  then have lt: "i < max_size r" by (simp add: slot_of_Some)
  with wf have len: "i < length (pinned r)" "i < length (frame_ids r)"
    by (simp_all add: replacer_wf_def)
  let ?r = "r\<lparr>frame_ids := (frame_ids r)[i := f], pinned := (pinned r)[i := False],
               ref_bits := (ref_bits r)[i := False], size_r := min (size_r r + 1) (max_size r)\<rparr>"
  from None have "\<forall>j<i. frame_ids r ! j \<noteq> f" using lt by (auto simp: slot_of_None)
  with lt len have "slot_of ?r f = Some i" by (simp add: slot_of_Some)
  with None i len show ?thesis by (simp add: Unpin_def evictable_def)
qed

text \<open>
  C6.  \<open>UnpinPage\<close> answers \<open>false\<close> and changes nothing when the page is not resident or
  its frame's pin count is not positive.  Otherwise it answers \<open>true\<close>, the pin count goes
  down by one, the dirty flag becomes the old flag or the caller's, and the replacer is
  told \<open>Unpin\<close> exactly when the count was 1 (it is untouched otherwise); the frame,
  registered in the replacer, is evictable after that \<open>Unpin\<close>.
\<close>

theorem UnpinPgImp_contract:
  "(map_of (page_table s) p = None \<longrightarrow> UnpinPgImp p d s = Inr (False, s)) \<and>
   (\<forall>f. map_of (page_table s) p = Some f \<and> in_pool s f \<longrightarrow>
      (pin_count (pages s ! nat f) \<le> 0 \<longrightarrow> UnpinPgImp p d s = Inr (False, s)) \<and>
      (0 < pin_count (pages s ! nat f) \<longrightarrow>
         UnpinPgImp p d s =
           Inr (True,
                s\<lparr>pages := (pages s)[nat f := (pages s ! nat f)
                              \<lparr>pin_count := pin_count (pages s ! nat f) - 1,
                               is_dirty := is_dirty (pages s ! nat f) \<or> d\<rparr>],
                  replacer := (if pin_count (pages s ! nat f) = 1
                               then Unpin (replacer s) f else replacer s)\<rparr>) \<and>
         (pin_count (pages s ! nat f) = 1 \<and> replacer_wf (replacer s) \<and>
          f \<in> set (frame_ids (replacer s)) \<longrightarrow>
            evictable (Unpin (replacer s) f) f)))"
proof (intro conjI allI impI)
  assume "map_of (page_table s) p = None"
  then show "UnpinPgImp p d s = Inr (False, s)" by (simp add: UnpinPgImp_def)
next
  fix f assume "map_of (page_table s) p = Some f \<and> in_pool s f"
    and "pin_count (pages s ! nat f) \<le> 0"
  then show "UnpinPgImp p d s = Inr (False, s)" by (simp add: UnpinPgImp_def)
next
  fix f assume "map_of (page_table s) p = Some f \<and> in_pool s f"
    and "0 < pin_count (pages s ! nat f)"
  then show "UnpinPgImp p d s =
           Inr (True,
                s\<lparr>pages := (pages s)[nat f := (pages s ! nat f)
                              \<lparr>pin_count := pin_count (pages s ! nat f) - 1,
                               is_dirty := is_dirty (pages s ! nat f) \<or> d\<rparr>],
                  replacer := (if pin_count (pages s ! nat f) = 1
                               then Unpin (replacer s) f else replacer s)\<rparr>)"
    by (cases "is_dirty (pages s ! nat f)") (simp_all add: UnpinPgImp_def Let_def)
next
  fix f assume "pin_count (pages s ! nat f) = 1 \<and> replacer_wf (replacer s) \<and>
          f \<in> set (frame_ids (replacer s))"
  then have wf: "replacer_wf (replacer s)" and "f \<in> set (frame_ids (replacer s))" by simp_all
  then have "slot_of (replacer s) f \<noteq> None" by (simp add: slot_of_in_set replacer_wf_def)
  with wf show "evictable (Unpin (replacer s) f) f" by (simp add: Unpin_makes_evictable)
qed

text \<open>
  The theorem at \<open>one_pinned\<close>: page 0 is resident in frame 0 with pin count 1, and page 5
  is not resident.
\<close>

theorem UnpinPgImp_contract_witness:
  "map_of (page_table one_pinned) 5 = None \<and>
   UnpinPgImp 5 True one_pinned = Inr (False, one_pinned) \<and>
   map_of (page_table one_pinned) 0 = Some 0 \<and> in_pool one_pinned 0 \<and>
   pin_count (pages one_pinned ! nat 0) = 1 \<and> replacer_wf (replacer one_pinned) \<and>
   0 \<in> set (frame_ids (replacer one_pinned)) \<and>
   UnpinPgImp 0 False one_pinned =
     Inr (True,
          one_pinned\<lparr>pages := [\<lparr>page_id = 0, pin_count = 0, is_dirty = True,
                                   data = replicate PAGE_SIZE (CHR 0x00)\<rparr>],
                      replacer := Unpin (replacer one_pinned) 0\<rparr>) \<and>
   evictable (Unpin (replacer one_pinned) 0) 0"
proof -
  have h0: "map_of (page_table one_pinned) 5 = None" by (simp add: one_pinned_def)
  have h1: "map_of (page_table one_pinned) 0 = Some 0 \<and> in_pool one_pinned 0"
    by (simp add: one_pinned_def in_pool_def)
  have h2: "pin_count (pages one_pinned ! nat 0) = 1" "0 < pin_count (pages one_pinned ! nat 0)"
    by (simp_all add: one_pinned_def)
  have h3: "replacer_wf (replacer one_pinned)" "0 \<in> set (frame_ids (replacer one_pinned))"
    by (simp_all add: one_pinned_def replacer_wf_def)
  have e: "(pages one_pinned)[nat 0 := (pages one_pinned ! nat 0)
              \<lparr>pin_count := pin_count (pages one_pinned ! nat 0) - 1,
               is_dirty := is_dirty (pages one_pinned ! nat 0) \<or> False\<rparr>] =
           [\<lparr>page_id = 0, pin_count = 0, is_dirty = True,
             data = replicate PAGE_SIZE (CHR 0x00)\<rparr>]"
    by (simp add: one_pinned_def)
  from UnpinPgImp_contract [of one_pinned 5 True] h0
  have a: "UnpinPgImp 5 True one_pinned = Inr (False, one_pinned)" by blast
  from UnpinPgImp_contract [of one_pinned 0 False] h1 h2 h3
  have "UnpinPgImp 0 False one_pinned =
           Inr (True,
                one_pinned\<lparr>pages := (pages one_pinned)[nat 0 := (pages one_pinned ! nat 0)
                              \<lparr>pin_count := pin_count (pages one_pinned ! nat 0) - 1,
                               is_dirty := is_dirty (pages one_pinned ! nat 0) \<or> False\<rparr>],
                  replacer := (if pin_count (pages one_pinned ! nat 0) = 1
                               then Unpin (replacer one_pinned) 0 else replacer one_pinned)\<rparr>)"
    and b: "evictable (Unpin (replacer one_pinned) 0) 0"
    by blast+
  then have c: "UnpinPgImp 0 False one_pinned =
     Inr (True,
          one_pinned\<lparr>pages := [\<lparr>page_id = 0, pin_count = 0, is_dirty = True,
                                   data = replicate PAGE_SIZE (CHR 0x00)\<rparr>],
                      replacer := Unpin (replacer one_pinned) 0\<rparr>)"
    unfolding e using h2(1) by simp
  from h0 a h1 h2(1) h3 c b show ?thesis by blast
qed

text \<open>
  C7.  \<open>DeletePage\<close> of a page that is not resident calls the deallocation hook and
  answers \<open>true\<close>.  For a resident page with a positive pin count it answers \<open>false\<close> and
  the state is the same.  For a resident page with pin count 0 (or below) it answers
  \<open>true\<close>: the frame's metadata is reset, the frame is put at the front of the free list,
  the page-table entry is gone, the hook has been called, and nothing else has changed.
\<close>

theorem DeletePgImp_contract:
  "(map_of (page_table s) p = None \<longrightarrow>
      DeletePgImp p s = Inr (True, s\<lparr>deallocated := deallocated s @ [p]\<rparr>)) \<and>
   (\<forall>f. map_of (page_table s) p = Some f \<and> in_pool s f \<longrightarrow>
      (0 < pin_count (pages s ! nat f) \<longrightarrow> DeletePgImp p s = Inr (False, s)) \<and>
      (pin_count (pages s ! nat f) \<le> 0 \<longrightarrow>
         (\<exists>s'. DeletePgImp p s = Inr (True, s') \<and>
            pages s' = (pages s)[nat f := (pages s ! nat f)
                                   \<lparr>page_id := INVALID_PAGE_ID, pin_count := 0,
                                    is_dirty := False\<rparr>] \<and>
            free_list s' = f # free_list s \<and>
            page_table s' = AList.delete p (page_table s) \<and>
            map_of (page_table s') p = None \<and>
            deallocated s' = deallocated s @ [p] \<and>
            s' = s\<lparr>pages := pages s', free_list := free_list s',
                   page_table := page_table s', deallocated := deallocated s'\<rparr>)))"
  by (auto simp: DeletePgImp_def DeallocatePage_def AList.delete_conv')

text \<open>
  The theorem at \<open>one_pinned\<close> (page 5 not resident, page 0 resident and pinned) and at the
  state after \<open>UnpinPage(0, false)\<close> (page 0 resident with pin count 0).
\<close>

theorem DeletePgImp_contract_witness:
  "map_of (page_table one_pinned) 5 = None \<and>
   DeletePgImp 5 one_pinned = Inr (True, one_pinned\<lparr>deallocated := [5]\<rparr>) \<and>
   map_of (page_table one_pinned) 0 = Some 0 \<and> in_pool one_pinned 0 \<and>
   0 < pin_count (pages one_pinned ! nat 0) \<and>
   DeletePgImp 0 one_pinned = Inr (False, one_pinned) \<and>
   UnpinPgImp 0 False one_pinned =
     Inr (True, one_pinned\<lparr>pages := [\<lparr>page_id = 0, pin_count = 0, is_dirty = True,
                                           data = replicate PAGE_SIZE (CHR 0x00)\<rparr>],
                            replacer := Unpin (replacer one_pinned) 0\<rparr>) \<and>
   (\<exists>s'. DeletePgImp 0
            (one_pinned\<lparr>pages := [\<lparr>page_id = 0, pin_count = 0, is_dirty = True,
                                      data = replicate PAGE_SIZE (CHR 0x00)\<rparr>],
                         replacer := Unpin (replacer one_pinned) 0\<rparr>) = Inr (True, s') \<and>
          pages s' = [\<lparr>page_id = -1, pin_count = 0, is_dirty = False,
                       data = replicate PAGE_SIZE (CHR 0x00)\<rparr>] \<and>
          free_list s' = [0] \<and> page_table s' = [] \<and> deallocated s' = [0])"
proof -
  let ?u = "one_pinned\<lparr>pages := [\<lparr>page_id = 0, pin_count = 0, is_dirty = True,
                                     data = replicate PAGE_SIZE (CHR 0x00)\<rparr>],
                        replacer := Unpin (replacer one_pinned) 0\<rparr>"
  have h0: "map_of (page_table one_pinned) 5 = None" by (simp add: one_pinned_def)
  have h1: "map_of (page_table one_pinned) 0 = Some 0 \<and> in_pool one_pinned 0"
    by (simp add: one_pinned_def in_pool_def)
  have h2: "0 < pin_count (pages one_pinned ! nat 0)" by (simp add: one_pinned_def)
  have u: "UnpinPgImp 0 False one_pinned = Inr (True, ?u)"
    by (simp add: UnpinPgImp_def one_pinned_def in_pool_def)
  have h3: "map_of (page_table ?u) 0 = Some 0 \<and> in_pool ?u 0"
    by (simp add: one_pinned_def in_pool_def)
  have h4: "pin_count (pages ?u ! nat 0) \<le> 0" by simp
  from DeletePgImp_contract [of one_pinned 5] h0
  have a: "DeletePgImp 5 one_pinned = Inr (True, one_pinned\<lparr>deallocated := [5]\<rparr>)"
    by (simp add: one_pinned_def)
  from DeletePgImp_contract [of one_pinned 0] h1 h2
  have b: "DeletePgImp 0 one_pinned = Inr (False, one_pinned)" by blast
  from DeletePgImp_contract [of ?u 0] h3 h4
  obtain s' where "DeletePgImp 0 ?u = Inr (True, s')"
    and "pages s' = (pages ?u)[nat 0 := (pages ?u ! nat 0)
            \<lparr>page_id := INVALID_PAGE_ID, pin_count := 0, is_dirty := False\<rparr>]"
    and "free_list s' = 0 # free_list ?u" and "page_table s' = AList.delete 0 (page_table ?u)"
    and "deallocated s' = deallocated ?u @ [0]"
    by blast
  then have c: "\<exists>s'. DeletePgImp 0 ?u = Inr (True, s') \<and>
          pages s' = [\<lparr>page_id = -1, pin_count = 0, is_dirty = False,
                       data = replicate PAGE_SIZE (CHR 0x00)\<rparr>] \<and>
          free_list s' = [0] \<and> page_table s' = [] \<and> deallocated s' = [0]"
    by (simp add: one_pinned_def INVALID_PAGE_ID_def)
  from h0 a h1 h2 b u c show ?thesis by blast
qed

section \<open>A page request that fails\<close>

lemma NewPg_victim_None:
  "NewPg_victim s = Inr (None, s') \<Longrightarrow> s' = s"
  apply (auto simp: NewPg_victim_def Victim_def NewPg_install_def AllocatePage_def Let_def split: option.splits if_splits sum.splits prod.splits)
  done

lemma NewPg_install_not_None: "NewPg_install f s \<noteq> Inr (None, s')"
  by (auto simp: NewPg_install_def Let_def split: sum.splits prod.splits)

lemma NewPgImp_None:
  assumes "-1 \<notin> set (free_list s)" and "NewPgImp s = Inr (None, s')"
  shows "s' = s"
  using assms
  by (auto simp: NewPgImp_alt NewPg_install_not_None split: if_splits list.splits dest: NewPg_victim_None)

lemma FlushPgImp_free_list: "FlushPgImp p s = Inr (b, s') \<Longrightarrow> free_list s' = free_list s"
  by (auto simp: FlushPgImp_def WritePage_def Let_def split: option.splits if_splits)

lemma NewPg_install_free_list: "NewPg_install f s = Inr (x, s') \<Longrightarrow> free_list s' = free_list s"
  by (auto simp: NewPg_install_def AllocatePage_def Let_def split: sum.splits prod.splits if_splits)

lemma NewPg_victim_free_list: "NewPg_victim s = Inr (x, s') \<Longrightarrow> free_list s' = free_list s"
  by (auto simp: NewPg_victim_def Let_def split: option.splits sum.splits prod.splits if_splits
      dest!: NewPg_install_free_list FlushPgImp_free_list)

lemma NewPgImp_free_list: "NewPgImp s = Inr (x, s') \<Longrightarrow> set (free_list s') \<subseteq> set (free_list s)"
  by (auto simp: NewPgImp_alt split: list.splits if_splits
      dest!: NewPg_install_free_list NewPg_victim_free_list)

lemma FetchPg_install_free_list: "FetchPg_install p f s = Inr (x, s') \<Longrightarrow> free_list s' = free_list s"
  by (auto simp: FetchPg_install_def WritePage_def Let_def split: if_splits)

lemma FetchPgImp_free_list: "FetchPgImp p s = Inr (x, s') \<Longrightarrow> set (free_list s') \<subseteq> set (free_list s)"
  by (auto simp: FetchPgImp_alt split: list.splits if_splits option.splits prod.splits
      dest!: FetchPg_install_free_list)

lemma UnpinPgImp_free_list: "UnpinPgImp p d s = Inr (x, s') \<Longrightarrow> free_list s' = free_list s"
  by (auto simp: UnpinPgImp_def Let_def split: if_splits option.splits)

lemma fold_WritePage_free_list:
  "free_list (fold (\<lambda>(p, f) t. WritePage p (data (pages t ! nat f)) t) xs s) = free_list s"
  by (induction xs arbitrary: s) (auto simp: WritePage_def)

lemma FlushAllPgsImp_free_list: "FlushAllPgsImp s = Inr (x, s') \<Longrightarrow> free_list s' = free_list s"
  by (auto simp: FlushAllPgsImp_def fold_WritePage_free_list split: if_splits)

lemma DeletePgImp_free_list:
  "DeletePgImp p s = Inr (x, s') \<Longrightarrow>
     free_list s' = free_list s \<or> (\<exists>f. 0 \<le> f \<and> free_list s' = f # free_list s)"
  by (auto simp: DeletePgImp_def DeallocatePage_def in_pool_def split: if_splits option.splits)

lemma step_free_nonneg:
  assumes inv: "\<forall>f\<in>set (free_list s). 0 \<le> f" and "step q s = Inr (a, s')"
  shows "\<forall>f\<in>set (free_list s'). 0 \<le> f"
  using assms(2)
proof (cases rule: step_Inr_cases)
  case (NewPage x)
  from NewPgImp_free_list [OF this(2)] inv show ?thesis by blast
next
  case (FetchPage p x)
  from FetchPgImp_free_list [OF this(2)] inv show ?thesis by blast
next
  case (UnpinPage p d x)
  from UnpinPgImp_free_list [OF this(2)] inv show ?thesis by simp
next
  case (FlushPage p x)
  from FlushPgImp_free_list [OF this(2)] inv show ?thesis by simp
next
  case FlushAllPages
  from FlushAllPgsImp_free_list [OF this(2)] inv show ?thesis by simp
next
  case (DeletePage p x)
  from DeletePgImp_free_list [OF this(2)] inv show ?thesis by auto
qed

lemma NewPgImp_None_cause:
  assumes "-1 \<notin> set (free_list s)" and "NewPgImp s = Inr (None, s')"
  shows "list_all (\<lambda>i. \<not> pin_count (pages s ! i) \<le> 0) [0..<pool_size s] \<or>
         free_list s = [] \<and> Victim (replacer s) = Some (None, replacer s)"
  using assms
  by (auto simp: NewPgImp_alt NewPg_install_not_None NewPg_victim_def  Victim_def Let_def
      split: if_splits list.splits option.splits sum.splits prod.splits)

text \<open>
  C9.  In every state that a sequence of calls reaches from a fresh instance, a \<open>NewPage\<close>
  that returns no frame leaves the whole state as it was, the page-id counter included;
  and it returns no frame only when every frame has a positive pin count, or when the
  free list is empty and \<open>Victim\<close> answers \<open>false\<close>.
\<close>

theorem NewPgImp_failure_changes_nothing:
  assumes "run qs (fresh psize n idx d) = Inr (out, s)" and "NewPgImp s = Inr (None, s')"
  shows "s' = s \<and> next_page_id s' = next_page_id s \<and>
         (list_all (\<lambda>i. 0 < pin_count (pages s ! i)) [0..<pool_size s] \<or>
          free_list s = [] \<and> Victim (replacer s) = Some (None, replacer s))"
proof -
  obtain s0 where s0: "fresh psize n idx d = Inr ([], s0)"
    and fl: "free_list s0 = map int [0..<psize]"
    using assms(1) 
  proof (cases "fresh psize n idx d")
    case (Inl e)
    with assms(1) show ?thesis by (cases qs) simp_all
  next
    case (Inr y)
    then show ?thesis using that by (cases y) (auto dest: fresh_Inr)
  qed
  have "\<forall>f\<in>set (free_list s0). 0 \<le> f" by (simp add: fl)
  moreover from assms(1) have "run qs (Inr ([], s0)) = Inr (out, s)" by (simp add: s0)
  ultimately have "\<forall>f\<in>set (free_list s). 0 \<le> f"
    using run_preserves [where P = "\<lambda>s. \<forall>f\<in>set (free_list s). 0 \<le> f" and s = s0 and s' = s
        and qs = qs and out = "[]" and out' = out] step_free_nonneg
    by blast
  then have m: "-1 \<notin> set (free_list s)" by auto
  from NewPgImp_None [OF m assms(2)] NewPgImp_None_cause [OF m assms(2)]
  show ?thesis by (simp add: not_le)
qed

text \<open>
  The theorem at \<open>one_pinned\<close>, reached by one \<open>NewPage\<close>: the only frame is pinned and a
  second \<open>NewPage\<close> returns no frame.
\<close>

theorem NewPgImp_failure_changes_nothing_witness:
  "run [NewPage] (fresh 1 1 0 blank_disk) = Inr ([NewFrame (Some (0, 0))], one_pinned) \<and>
   NewPgImp one_pinned = Inr (None, one_pinned) \<and>
   next_page_id one_pinned = 1 \<and>
   list_all (\<lambda>i. 0 < pin_count (pages one_pinned ! i)) [0..<pool_size one_pinned]"
proof -
  have h1: "run [NewPage] (fresh 1 1 0 blank_disk) = Inr ([NewFrame (Some (0, 0))], one_pinned)"
    by (rule run_NewPage_one_pinned)
  have h2: "NewPgImp one_pinned = Inr (None, one_pinned)"
    by (simp add: NewPgImp_alt one_pinned_def)
  have h3: "free_list one_pinned = [] \<and> Victim (replacer one_pinned) = Some (None, replacer one_pinned) \<Longrightarrow>
      list_all (\<lambda>i. 0 < pin_count (pages one_pinned ! i)) [0..<pool_size one_pinned]"
    by (simp add: one_pinned_def)
  from NewPgImp_failure_changes_nothing [OF h1 h2] h3
  have "list_all (\<lambda>i. 0 < pin_count (pages one_pinned ! i)) [0..<pool_size one_pinned]"
    by blast
  with h1 h2 show ?thesis by (simp add: one_pinned_def)
qed

section \<open>The clock scenario\<close>

text \<open>
  C3, as the code has it.  In a pool of two frames, pages \<open>A\<close> and \<open>B\<close> are fetched and
  unpinned (in either order of the four calls), and \<open>A\<close> is fetched and unpinned once
  more.  Every \<open>Unpin\<close> of a pinned frame sets its reference bit, so after the touch of
  \<open>A\<close> the bits of both frames are set, and both frames are evictable, with the hand on
  slot 0.  The next request that needs a victim is a fetch of a third page \<open>C\<close>, or a
  \<open>NewPage\<close>, which allocates the id of the instance index.  Its sweep clears both bits
  and comes back to slot 0, the frame of \<open>A\<close>: the request is served from frame 0, which
  then holds the new page, pinned, while frame 1 still holds \<open>B\<close>; both reference bits
  are clear and the hand is on slot 1.  \<open>A\<close> is evicted, not \<open>B\<close>.  Each equation gives
  the responses of the calls, then the page id in each frame, the page table (for the
  fetch) and the replacer.
\<close>

theorem clock_evicts_first_frame:
  assumes "0 < n" "idx < n" "A \<noteq> B" "C \<noteq> A" "C \<noteq> B" "A \<noteq> -1"
  shows "map_sum id (map_prod id (\<lambda>s. (map page_id (pages s), page_table s, replacer s)))
           (run [FetchPage A, FetchPage B, UnpinPage A dA, UnpinPage B dB,
                 FetchPage A, UnpinPage A dA'] (fresh 2 n idx d)) =
         Inr ([Frame (Some 0), Frame (Some 1), Flag True, Flag True, Frame (Some 0), Flag True],
              ([A, B], [(A, 0), (B, 1)],
               \<lparr>frame_ids = [0, 1], pinned = [False, False], ref_bits = [True, True],
                max_size = 2, now = 0, size_r = 2\<rparr>)) \<and>
         map_sum id (map_prod id (\<lambda>s. (map page_id (pages s), page_table s, replacer s)))
           (run [FetchPage A, FetchPage B, UnpinPage A dA, UnpinPage B dB,
                 FetchPage A, UnpinPage A dA', FetchPage C] (fresh 2 n idx d)) =
         Inr ([Frame (Some 0), Frame (Some 1), Flag True, Flag True, Frame (Some 0), Flag True,
               Frame (Some 0)],
              ([C, B], [(B, 1), (C, 0)],
               \<lparr>frame_ids = [0, 1], pinned = [True, False], ref_bits = [False, False],
                max_size = 2, now = 1, size_r = 2\<rparr>)) \<and>
         map_sum id (map_prod id (\<lambda>s. (map page_id (pages s), replacer s)))
           (run [FetchPage A, FetchPage B, UnpinPage A dA, UnpinPage B dB,
                 FetchPage A, UnpinPage A dA', NewPage] (fresh 2 n idx d)) =
         Inr ([Frame (Some 0), Frame (Some 1), Flag True, Flag True, Frame (Some 0), Flag True,
               NewFrame (Some (sint idx, 0))],
              ([sint idx, B],
               \<lparr>frame_ids = [0, 1], pinned = [True, False], ref_bits = [False, False],
                max_size = 2, now = 1, size_r = 2\<rparr>)) \<and>
         map_sum id (map_prod id (\<lambda>s. (map page_id (pages s), page_table s, replacer s)))
           (run [FetchPage A, UnpinPage A dA, FetchPage B, UnpinPage B dB,
                 FetchPage A, UnpinPage A dA'] (fresh 2 n idx d)) =
         Inr ([Frame (Some 0), Flag True, Frame (Some 1), Flag True, Frame (Some 0), Flag True],
              ([A, B], [(A, 0), (B, 1)],
               \<lparr>frame_ids = [0, 1], pinned = [False, False], ref_bits = [True, True],
                max_size = 2, now = 0, size_r = 2\<rparr>)) \<and>
         map_sum id (map_prod id (\<lambda>s. (map page_id (pages s), page_table s, replacer s)))
           (run [FetchPage A, UnpinPage A dA, FetchPage B, UnpinPage B dB,
                 FetchPage A, UnpinPage A dA', FetchPage C] (fresh 2 n idx d)) =
         Inr ([Frame (Some 0), Flag True, Frame (Some 1), Flag True, Frame (Some 0), Flag True,
               Frame (Some 0)],
              ([C, B], [(B, 1), (C, 0)],
               \<lparr>frame_ids = [0, 1], pinned = [True, False], ref_bits = [False, False],
                max_size = 2, now = 1, size_r = 2\<rparr>)) \<and>
         map_sum id (map_prod id (\<lambda>s. (map page_id (pages s), replacer s)))
           (run [FetchPage A, UnpinPage A dA, FetchPage B, UnpinPage B dB,
                 FetchPage A, UnpinPage A dA', NewPage] (fresh 2 n idx d)) =
         Inr ([Frame (Some 0), Flag True, Frame (Some 1), Flag True, Frame (Some 0), Flag True,
               NewFrame (Some (sint idx, 0))],
              ([sint idx, B],
               \<lparr>frame_ids = [0, 1], pinned = [True, False], ref_bits = [False, False],
                max_size = 2, now = 1, size_r = 2\<rparr>))"
proof -
  from assms(2) have m: "idx mod n = idx" by (rule mod_word_less)
  have c1: "map_sum id (map_prod id (\<lambda>s. (map page_id (pages s), page_table s, replacer s)))
        (run [FetchPage A, FetchPage B, UnpinPage A dA, UnpinPage B dB,
              FetchPage A, UnpinPage A dA'] (fresh 2 n idx d)) =
      Inr ([Frame (Some 0), Frame (Some 1), Flag True, Flag True, Frame (Some 0), Flag True],
           ([A, B], [(A, 0), (B, 1)],
            \<lparr>frame_ids = [0, 1], pinned = [False, False], ref_bits = [True, True],
             max_size = 2, now = 0, size_r = 2\<rparr>))"
    using assms m
    by (cases dA; cases dB; cases dA'; simp add: scenario_defs Let_def numeral_2_eq_2)
  have c2: "map_sum id (map_prod id (\<lambda>s. (map page_id (pages s), page_table s, replacer s)))
        (run [FetchPage A, FetchPage B, UnpinPage A dA, UnpinPage B dB,
              FetchPage A, UnpinPage A dA', FetchPage C] (fresh 2 n idx d)) =
      Inr ([Frame (Some 0), Frame (Some 1), Flag True, Flag True, Frame (Some 0), Flag True,
            Frame (Some 0)],
           ([C, B], [(B, 1), (C, 0)],
            \<lparr>frame_ids = [0, 1], pinned = [True, False], ref_bits = [False, False],
             max_size = 2, now = 1, size_r = 2\<rparr>))"
    using assms m
    by (cases dA; cases dB; cases dA'; simp add: scenario_defs Let_def numeral_2_eq_2)
  have c3: "map_sum id (map_prod id (\<lambda>s. (map page_id (pages s), replacer s)))
        (run [FetchPage A, FetchPage B, UnpinPage A dA, UnpinPage B dB,
              FetchPage A, UnpinPage A dA', NewPage] (fresh 2 n idx d)) =
      Inr ([Frame (Some 0), Frame (Some 1), Flag True, Flag True, Frame (Some 0), Flag True,
            NewFrame (Some (sint idx, 0))],
           ([sint idx, B],
            \<lparr>frame_ids = [0, 1], pinned = [True, False], ref_bits = [False, False],
             max_size = 2, now = 1, size_r = 2\<rparr>))"
    using assms m
    by (cases dA; cases dB; cases dA'; simp add: scenario_defs Let_def numeral_2_eq_2)
  have c4: "map_sum id (map_prod id (\<lambda>s. (map page_id (pages s), page_table s, replacer s)))
        (run [FetchPage A, UnpinPage A dA, FetchPage B, UnpinPage B dB,
              FetchPage A, UnpinPage A dA'] (fresh 2 n idx d)) =
      Inr ([Frame (Some 0), Flag True, Frame (Some 1), Flag True, Frame (Some 0), Flag True],
           ([A, B], [(A, 0), (B, 1)],
            \<lparr>frame_ids = [0, 1], pinned = [False, False], ref_bits = [True, True],
             max_size = 2, now = 0, size_r = 2\<rparr>))"
    using assms m
    by (cases dA; cases dB; cases dA'; simp add: scenario_defs Let_def numeral_2_eq_2)
  have c5: "map_sum id (map_prod id (\<lambda>s. (map page_id (pages s), page_table s, replacer s)))
        (run [FetchPage A, UnpinPage A dA, FetchPage B, UnpinPage B dB,
              FetchPage A, UnpinPage A dA', FetchPage C] (fresh 2 n idx d)) =
      Inr ([Frame (Some 0), Flag True, Frame (Some 1), Flag True, Frame (Some 0), Flag True,
            Frame (Some 0)],
           ([C, B], [(B, 1), (C, 0)],
            \<lparr>frame_ids = [0, 1], pinned = [True, False], ref_bits = [False, False],
             max_size = 2, now = 1, size_r = 2\<rparr>))"
    using assms m
    by (cases dA; cases dB; cases dA'; simp add: scenario_defs Let_def numeral_2_eq_2)
  have c6: "map_sum id (map_prod id (\<lambda>s. (map page_id (pages s), replacer s)))
        (run [FetchPage A, UnpinPage A dA, FetchPage B, UnpinPage B dB,
              FetchPage A, UnpinPage A dA', NewPage] (fresh 2 n idx d)) =
      Inr ([Frame (Some 0), Flag True, Frame (Some 1), Flag True, Frame (Some 0), Flag True,
            NewFrame (Some (sint idx, 0))],
           ([sint idx, B],
            \<lparr>frame_ids = [0, 1], pinned = [True, False], ref_bits = [False, False],
             max_size = 2, now = 1, size_r = 2\<rparr>))"
    using assms m
    by (cases dA; cases dB; cases dA'; simp add: scenario_defs Let_def numeral_2_eq_2)
  from c1 c2 c3 c4 c5 c6 show ?thesis by (intro conjI)
qed

text \<open>
  The theorem at pages 10, 11 and 12, one instance, a blank disk and no dirty flag: the
  state after the touch, after the fetch of page 12, and after a \<open>NewPage\<close> instead.
\<close>

theorem clock_evicts_first_frame_witness:
  "map_sum id (map_prod id (\<lambda>s. (map page_id (pages s), page_table s, replacer s)))
     (run [FetchPage 10, FetchPage 11, UnpinPage 10 False, UnpinPage 11 False,
           FetchPage 10, UnpinPage 10 False] (fresh 2 1 0 blank_disk)) =
   Inr ([Frame (Some 0), Frame (Some 1), Flag True, Flag True, Frame (Some 0), Flag True],
        ([10, 11], [(10, 0), (11, 1)],
         \<lparr>frame_ids = [0, 1], pinned = [False, False], ref_bits = [True, True],
          max_size = 2, now = 0, size_r = 2\<rparr>)) \<and>
   map_sum id (map_prod id (\<lambda>s. (map page_id (pages s), page_table s, replacer s)))
     (run [FetchPage 10, FetchPage 11, UnpinPage 10 False, UnpinPage 11 False,
           FetchPage 10, UnpinPage 10 False, FetchPage 12] (fresh 2 1 0 blank_disk)) =
   Inr ([Frame (Some 0), Frame (Some 1), Flag True, Flag True, Frame (Some 0), Flag True,
         Frame (Some 0)],
        ([12, 11], [(11, 1), (12, 0)],
         \<lparr>frame_ids = [0, 1], pinned = [True, False], ref_bits = [False, False],
          max_size = 2, now = 1, size_r = 2\<rparr>)) \<and>
   map_sum id (map_prod id (\<lambda>s. (map page_id (pages s), replacer s)))
     (run [FetchPage 10, FetchPage 11, UnpinPage 10 False, UnpinPage 11 False,
           FetchPage 10, UnpinPage 10 False, NewPage] (fresh 2 1 0 blank_disk)) =
   Inr ([Frame (Some 0), Frame (Some 1), Flag True, Flag True, Frame (Some 0), Flag True,
         NewFrame (Some (0, 0))],
        ([0, 11],
         \<lparr>frame_ids = [0, 1], pinned = [True, False], ref_bits = [False, False],
          max_size = 2, now = 1, size_r = 2\<rparr>))"
proof -
  have "(0::32 word) < 1" "(0::32 word) < 1" "(10::int) \<noteq> 11" "(12::int) \<noteq> 10"
    "(12::int) \<noteq> 11" "(10::int) \<noteq> -1"
    by simp_all
  from clock_evicts_first_frame [OF this, of False False False blank_disk]
  show ?thesis by simp
qed

text \<open>
  C3 as the spec states it fails.  With \<open>A = 10\<close> and \<open>B = 11\<close> in a pool of two frames,
  the request after the touch of \<open>A\<close> (a fetch of page 12, or a \<open>NewPage\<close>, which
  allocates id 0) is served from frame 0: the page table then holds \<open>B = 11\<close> in frame 1
  and the new page in frame 0, and \<open>A = 10\<close> is gone.
\<close>

theorem second_chance_counterexample:
  "map_sum id (map_prod id page_table)
     (run [FetchPage 10, FetchPage 11, UnpinPage 10 False, UnpinPage 11 False,
           FetchPage 10, UnpinPage 10 False, FetchPage 12] (fresh 2 1 0 blank_disk)) =
   Inr ([Frame (Some 0), Frame (Some 1), Flag True, Flag True,
         Frame (Some 0), Flag True, Frame (Some 0)], [(11, 1), (12, 0)]) \<and>
   map_sum id (map_prod id page_table)
     (run [FetchPage 10, FetchPage 11, UnpinPage 10 False, UnpinPage 11 False,
           FetchPage 10, UnpinPage 10 False, NewPage] (fresh 2 1 0 blank_disk)) =
   Inr ([Frame (Some 0), Frame (Some 1), Flag True, Flag True,
         Frame (Some 0), Flag True, NewFrame (Some (0, 0))], [(11, 1), (0, 0)])"
  by (simp add: scenario_defs)

section \<open>The free list and the page table\<close>

subsection \<open>Association lists\<close>

lemma update_fresh: "k \<notin> fst ` set al \<Longrightarrow> AList.update k v al = al @ [(k, v)]"
  by (induction al) auto

lemma set_delete: "set (AList.delete k al) = {x \<in> set al. fst x \<noteq> k}"
  by (induction al) auto

lemma length_delete_present:
  "distinct (map fst al) \<Longrightarrow> (k, v) \<in> set al \<Longrightarrow> Suc (length (AList.delete k al)) = length al"
proof (induction al)
  case Nil
  then show ?case by simp
next
  case (Cons x al)
  show ?case
  proof (cases "fst x = k")
    case True
    with Cons.prems(1) have "k \<notin> fst ` set al" by auto
    then have "AList.delete k al = al" by simp
    with True show ?thesis by (cases x) simp
  next
    case False
    with Cons.prems(2) have "(k, v) \<in> set al" by auto
    with Cons.IH Cons.prems(1) have "Suc (length (AList.delete k al)) = length al" by simp
    with False show ?thesis by (cases x) simp
  qed
qed

subsection \<open>The directory invariant\<close>

lemma dir_ok_unfold:
  "dir_ok n pgs tab fl \<longleftrightarrow>
     length pgs = n \<and> distinct (map fst tab) \<and>
     (\<forall>p f. (p, f) \<in> set tab \<longrightarrow>
        p \<noteq> -1 \<and> 0 \<le> f \<and> nat f < n \<and> page_id (pgs ! nat f) = p) \<and>
     distinct fl \<and>
     (\<forall>f \<in> set fl. 0 \<le> f \<and> nat f < n \<and> page_id (pgs ! nat f) = -1) \<and>
     length fl + length tab = n"
  by (auto simp: dir_ok_def list_all_iff)

text \<open>Changing a frame's pin count, dirty flag or buffer, its page id staying.\<close>

lemma dir_ok_meta:
  assumes "dir_ok n pgs tab fl" and "page_id pg = page_id (pgs ! i)"
  shows "dir_ok n (pgs[i := pg]) tab fl"
proof -
  have "page_id (pgs[i := pg] ! j) = page_id (pgs ! j)" for j
  proof (cases "i < length pgs")
    case True
    with assms(2) show ?thesis by (auto simp: nth_list_update)
  next
    case False
    then have "pgs[i := pg] = pgs" by (simp add: list_update_beyond)
    then show ?thesis by simp
  qed
  with assms(1) show ?thesis by (simp add: dir_ok_unfold)
qed

text \<open>Taking the head of the free list for a page \<open>k\<close> that has no entry.\<close>

lemma dir_ok_take:
  assumes ok: "dir_ok n pgs tab (f # fl)"
    and k: "k \<notin> fst ` set tab" "k \<noteq> -1" "page_id pg = k"
  shows "dir_ok n (pgs[nat f := pg]) (AList.update k f tab) fl"
proof -
  from ok have len: "length pgs = n" and dk: "distinct (map fst tab)"
    and tab: "\<And>p g. (p, g) \<in> set tab \<Longrightarrow>
        p \<noteq> -1 \<and> 0 \<le> g \<and> nat g < n \<and> page_id (pgs ! nat g) = p"
    and df: "distinct (f # fl)"
    and fr: "\<And>g. g \<in> set (f # fl) \<Longrightarrow> 0 \<le> g \<and> nat g < n \<and> page_id (pgs ! nat g) = -1"
    and cnt: "length (f # fl) + length tab = n"
    by (auto simp: dir_ok_unfold)
  from fr [of f] have f: "0 \<le> f" "nat f < n" "page_id (pgs ! nat f) = -1" by simp_all
  have upd: "AList.update k f tab = tab @ [(k, f)]" using k(1) by (rule update_fresh)
  have other: "pgs[nat f := pg] ! nat g = pgs ! nat g" if "0 \<le> g" "g \<noteq> f" for g
    using that f(1) by simp
  have tabf: "g \<noteq> f" if "(p, g) \<in> set tab" for p g
    using tab [OF that] f(3) by auto
  have 1: "length (pgs[nat f := pg]) = n" using len by simp
  have 2: "distinct (map fst (tab @ [(k, f)]))" using dk k(1) by auto
  have 3: "distinct fl" using df by simp
  have 4: "length fl + length (tab @ [(k, f)]) = n" using cnt by simp
  have 5: "p \<noteq> -1 \<and> 0 \<le> g \<and> nat g < n \<and> page_id (pgs[nat f := pg] ! nat g) = p"
    if "(p, g) \<in> set (tab @ [(k, f)])" for p g
  proof -
    from that consider "(p, g) \<in> set tab" | "p = k" "g = f" by auto
    then show ?thesis
    proof cases
      case 1
      from tab [OF 1] tabf [OF 1] show ?thesis by (simp add: other)
    next
      case 2
      with f k len show ?thesis by simp
    qed
  qed
  have 6: "0 \<le> g \<and> nat g < n \<and> page_id (pgs[nat f := pg] ! nat g) = -1" if g: "g \<in> set fl" for g
  proof -
    from g df have "g \<noteq> f" by auto
    with fr [of g] g show ?thesis by (simp add: other)
  qed
  from 1 2 3 4 5 6 show ?thesis unfolding dir_ok_unfold upd by blast
qed

text \<open>With the free list empty every frame of the pool has an entry.\<close>

lemma dir_ok_full:
  assumes ok: "dir_ok n pgs tab []" and v: "0 \<le> v" "nat v < n"
  shows "(page_id (pgs ! nat v), v) \<in> set tab"
proof -
  from ok have dk: "distinct (map fst tab)"
    and tab: "\<And>p g. (p, g) \<in> set tab \<Longrightarrow>
        p \<noteq> -1 \<and> 0 \<le> g \<and> nat g < n \<and> page_id (pgs ! nat g) = p"
    and cnt: "length tab = n"
    by (auto simp: dir_ok_unfold)
  have inj: "inj_on snd (set tab)"
  proof (rule inj_onI)
    fix x y assume "x \<in> set tab" "y \<in> set tab" "snd x = snd y"
    then show "x = y" using tab [of "fst x" "snd x"] tab [of "fst y" "snd y"]
      by (cases x; cases y) auto
  qed
  from dk have "distinct tab" by (rule distinct_map [THEN iffD1, THEN conjunct1])
  with inj have "distinct (map snd tab)" by (simp add: distinct_map)
  then have "card (set (map snd tab)) = n" using cnt distinct_card [of "map snd tab"] by simp
  moreover have "set (map snd tab) \<subseteq> int ` {..<n}"
  proof
    fix g assume "g \<in> set (map snd tab)"
    then obtain p where "(p, g) \<in> set tab" by auto
    from tab [OF this] have "0 \<le> g" "nat g < n" by simp_all
    then have "g = int (nat g)" "nat g \<in> {..<n}" by simp_all
    then show "g \<in> int ` {..<n}" by (rule image_eqI)
  qed
  moreover have "card (int ` {..<n}) = n" by (simp add: card_image)
  ultimately have "set (map snd tab) = int ` {..<n}"
    by (intro card_subset_eq) simp_all
  moreover from v have "v \<in> int ` {..<n}" by (intro image_eqI [of _ _ "nat v"]) simp_all
  ultimately have "v \<in> set (map snd tab)" by simp
  then obtain p where p: "(p, v) \<in> set tab" by auto
  from tab [OF p] p show ?thesis by simp
qed

text \<open>
  Evicting frame \<open>v\<close> for a page \<open>k\<close> that no other frame holds, the free list being
  empty.
\<close>

lemma dir_ok_evict:
  assumes ok: "dir_ok n pgs tab []" and v: "0 \<le> v" "nat v < n"
    and k: "k \<notin> fst ` set (AList.delete (page_id (pgs ! nat v)) tab)" "k \<noteq> -1"
      "page_id pg = k"
  shows "dir_ok n (pgs[nat v := pg])
           (AList.update k v (AList.delete (page_id (pgs ! nat v)) tab)) []"
proof -
  let ?old = "page_id (pgs ! nat v)"
  let ?del = "AList.delete ?old tab"
  from ok have len: "length pgs = n" and dk: "distinct (map fst tab)"
    and tab: "\<And>p g. (p, g) \<in> set tab \<Longrightarrow>
        p \<noteq> -1 \<and> 0 \<le> g \<and> nat g < n \<and> page_id (pgs ! nat g) = p"
    and cnt: "length tab = n"
    by (auto simp: dir_ok_unfold)
  from dir_ok_full [OF ok v] have old: "(?old, v) \<in> set tab" .
  from length_delete_present [OF dk old] cnt have ldel: "Suc (length ?del) = n" by simp
  have kdel: "k \<notin> fst ` set ?del" using k(1) .
  have upd: "AList.update k v ?del = ?del @ [(k, v)]" using kdel by (rule update_fresh)
  have ne: "g \<noteq> v" if "(p, g) \<in> set ?del" for p g
  proof
    assume "g = v"
    with that have "(p, v) \<in> set tab" "p \<noteq> ?old" by (auto simp: set_delete)
    with tab [of p v] show False by simp
  qed
  have other: "pgs[nat v := pg] ! nat g = pgs ! nat g" if "0 \<le> g" "g \<noteq> v" for g
    using that v(1) by simp
  have 1: "length (pgs[nat v := pg]) = n" using len by simp
  have 2: "distinct (map fst (?del @ [(k, v)]))"
    using distinct_delete [OF dk, of ?old] kdel by auto
  have 4: "length ([]::int list) + length (?del @ [(k, v)]) = n" using ldel by simp
  have 5: "p \<noteq> -1 \<and> 0 \<le> g \<and> nat g < n \<and> page_id (pgs[nat v := pg] ! nat g) = p"
    if "(p, g) \<in> set (?del @ [(k, v)])" for p g
  proof -
    from that consider "(p, g) \<in> set ?del" | "p = k" "g = v" by auto
    then show ?thesis
    proof cases
      case 1
      then have in_tab: "(p, g) \<in> set tab" by (simp add: set_delete)
      from tab [OF in_tab] ne [OF 1] show ?thesis by (simp add: other)
    next
      case 2
      with v k len show ?thesis by simp
    qed
  qed
  from 1 2 4 5 show ?thesis unfolding dir_ok_unfold upd by simp
qed

text \<open>Deleting a resident page and putting its frame back at the head of the free list.\<close>

lemma dir_ok_delete:
  assumes ok: "dir_ok n pgs tab fl" and res: "map_of tab p = Some f"
    and pg: "page_id pg = -1"
  shows "dir_ok n (pgs[nat f := pg]) (AList.delete p tab) (f # fl)"
proof -
  from ok have len: "length pgs = n" and dk: "distinct (map fst tab)"
    and tab: "\<And>p g. (p, g) \<in> set tab \<Longrightarrow>
        p \<noteq> -1 \<and> 0 \<le> g \<and> nat g < n \<and> page_id (pgs ! nat g) = p"
    and df: "distinct fl"
    and fr: "\<And>g. g \<in> set fl \<Longrightarrow> 0 \<le> g \<and> nat g < n \<and> page_id (pgs ! nat g) = -1"
    and cnt: "length fl + length tab = n"
    by (auto simp: dir_ok_unfold)
  from res have pf: "(p, f) \<in> set tab" by (rule map_of_SomeD)
  from tab [OF pf] have f: "p \<noteq> -1" "0 \<le> f" "nat f < n" "page_id (pgs ! nat f) = p" by simp_all
  have notfree: "f \<notin> set fl" using fr [of f] f by auto
  from length_delete_present [OF dk pf] have ldel: "Suc (length (AList.delete p tab)) = length tab" .
  have ne: "g \<noteq> f" if "(q, g) \<in> set (AList.delete p tab)" for q g
  proof
    assume "g = f"
    with that have "(q, f) \<in> set tab" "q \<noteq> p" by (auto simp: set_delete)
    with tab [of q f] f(4) show False by simp
  qed
  have other: "pgs[nat f := pg] ! nat g = pgs ! nat g" if "0 \<le> g" "g \<noteq> f" for g
    using that f(2) by simp
  have 1: "length (pgs[nat f := pg]) = n" using len by simp
  have 2: "distinct (map fst (AList.delete p tab))" using dk by (rule distinct_delete)
  have 3: "distinct (f # fl)" using df notfree by simp
  have 4: "length (f # fl) + length (AList.delete p tab) = n" using cnt ldel by simp
  have 5: "q \<noteq> -1 \<and> 0 \<le> g \<and> nat g < n \<and> page_id (pgs[nat f := pg] ! nat g) = q"
    if 1: "(q, g) \<in> set (AList.delete p tab)" for q g
  proof -
    from 1 have in_tab: "(q, g) \<in> set tab" by (simp add: set_delete)
    from tab [OF in_tab] ne [OF 1] show ?thesis by (simp add: other)
  qed
  have 6: "0 \<le> g \<and> nat g < n \<and> page_id (pgs[nat f := pg] ! nat g) = -1"
    if "g \<in> set (f # fl)" for g
  proof -
    from that consider "g = f" | "g \<in> set fl" "g \<noteq> f" using notfree by auto
    then show ?thesis
    proof cases
      case 1
      with f pg len show ?thesis by simp
    next
      case 2
      with fr [of g] show ?thesis by (simp add: other)
    qed
  qed
  from 1 2 3 4 5 6 show ?thesis unfolding dir_ok_unfold by blast
qed

subsection \<open>The replacer invariant\<close>

lemma rep_ok_unfold:
  "rep_ok n r \<longleftrightarrow>
     replacer_wf r \<and> (\<forall>x \<in> set (frame_ids r). x = -1 \<or> (0 \<le> x \<and> nat x < n))"
  by (simp add: rep_ok_def list_all_iff)

lemma rep_ok_ClockReplacer: "rep_ok n (ClockReplacer m)"
  by (simp add: rep_ok_unfold replacer_wf_ClockReplacer) (simp add: ClockReplacer_def)

lemma rep_ok_Pin:
  assumes "rep_ok n r" and "0 \<le> f" and "nat f < n"
  shows "rep_ok n (Pin r f)"
proof -
  have sub: "set (xs[i := f]) \<subseteq> insert f (set xs)" for xs :: "int list" and i
    by (rule set_update_subset_insert)
  show ?thesis
  proof (cases "slot_of r f")
    case (Some i)
    with assms(1) show ?thesis by (simp add: Pin_def rep_ok_unfold replacer_wf_def)
  next
    case None
    show ?thesis
    proof (cases "slot_of r (-1)")
      case n: None
      with None assms(1) show ?thesis by (simp add: Pin_def)
    next
      case (Some i)
      with None assms sub [of "frame_ids r" i] show ?thesis
        by (auto simp: Pin_def rep_ok_unfold replacer_wf_def)
    qed
  qed
qed

lemma rep_ok_Unpin:
  assumes "rep_ok n r" and "0 \<le> f" and "nat f < n"
  shows "rep_ok n (Unpin r f)"
proof -
  have sub: "set (xs[i := f]) \<subseteq> insert f (set xs)" for xs :: "int list" and i
    by (rule set_update_subset_insert)
  show ?thesis
  proof (cases "slot_of r f")
    case (Some i)
    with assms(1) show ?thesis by (simp add: Unpin_def rep_ok_unfold replacer_wf_def)
  next
    case None
    show ?thesis
    proof (cases "slot_of r (-1)")
      case n: None
      with None assms(1) show ?thesis by (simp add: Unpin_def)
    next
      case (Some i)
      with None assms sub [of "frame_ids r" i] show ?thesis
        by (auto simp: Unpin_def rep_ok_unfold replacer_wf_def)
    qed
  qed
qed

text \<open>
  What a sweep that returns has done: partial correctness, by the induction rule of the
  partial function.
\<close>

lemma victim_sweep_rep_ok:
  assumes run: "victim_sweep r = Some y" and ok: "rep_ok n r" and pos: "0 < size_r r"
  shows "rep_ok n (snd y) \<and> 0 \<le> fst y \<and> nat (fst y) < n"
proof -
  have "rep_ok n r \<and> 0 < size_r r \<longrightarrow> rep_ok n (snd y) \<and> 0 \<le> fst y \<and> nat (fst y) < n"
  proof (rule victim_sweep.raw_induct
      [where P = "\<lambda>r y. rep_ok n r \<and> 0 < size_r r \<longrightarrow>
                          rep_ok n (snd y) \<and> 0 \<le> fst y \<and> nat (fst y) < n", OF _ run])
    fix sweep x y
    assume IH: "\<And>x y. sweep x = Some y \<Longrightarrow>
        rep_ok n x \<and> 0 < size_r x \<longrightarrow> rep_ok n (snd y) \<and> 0 \<le> fst y \<and> nat (fst y) < n"
      and body: "(if pinned x ! now x \<or> frame_ids x ! now x = -1
          then sweep (x\<lparr>now := (now x + 1) mod size_r x\<rparr>)
          else if ref_bits x ! now x
          then sweep (x\<lparr>ref_bits := (ref_bits x)[now x := False],
                         now := (now x + 1) mod size_r x\<rparr>)
          else Some (frame_ids x ! now x,
                     x\<lparr>frame_ids := (frame_ids x)[now x := -1],
                       now := (now x + 1) mod size_r x\<rparr>)) = Some y"
    show "rep_ok n x \<and> 0 < size_r x \<longrightarrow> rep_ok n (snd y) \<and> 0 \<le> fst y \<and> nat (fst y) < n"
    proof
      assume a: "rep_ok n x \<and> 0 < size_r x"
      then have wf: "replacer_wf x" and pos: "0 < size_r x"
        and fr: "\<And>v. v \<in> set (frame_ids x) \<Longrightarrow> v = -1 \<or> (0 \<le> v \<and> nat v < n)"
        by (auto simp: rep_ok_unfold)
      from pos have m: "(now x + 1) mod size_r x < max 1 (size_r x)" by simp
      from wf pos have inr: "now x < length (frame_ids x)" by (simp add: replacer_wf_def)
      let ?skip = "x\<lparr>now := (now x + 1) mod size_r x\<rparr>"
      let ?clr = "x\<lparr>ref_bits := (ref_bits x)[now x := False], now := (now x + 1) mod size_r x\<rparr>"
      have s: "rep_ok n ?skip \<and> 0 < size_r ?skip"
        using a m by (simp add: rep_ok_unfold replacer_wf_def)
      have c: "rep_ok n ?clr \<and> 0 < size_r ?clr"
        using a m by (simp add: rep_ok_unfold replacer_wf_def)
      consider (skip) "pinned x ! now x \<or> frame_ids x ! now x = -1"
        | (clear) "\<not> (pinned x ! now x \<or> frame_ids x ! now x = -1)" "ref_bits x ! now x"
        | (found) "\<not> (pinned x ! now x \<or> frame_ids x ! now x = -1)" "\<not> ref_bits x ! now x"
        by blast
      then show "rep_ok n (snd y) \<and> 0 \<le> fst y \<and> nat (fst y) < n"
      proof cases
        case skip
        with body have "sweep ?skip = Some y" by simp
        from IH [OF this] s show ?thesis by blast
      next
        case clear
        with body have "sweep ?clr = Some y" by simp
        from IH [OF this] c show ?thesis by blast
      next
        case found
        with body have y: "y = (frame_ids x ! now x,
            x\<lparr>frame_ids := (frame_ids x)[now x := -1], now := (now x + 1) mod size_r x\<rparr>)"
          by simp
        from inr have "frame_ids x ! now x \<in> set (frame_ids x)" by simp
        from fr [OF this] found(1) have v: "0 \<le> frame_ids x ! now x" "nat (frame_ids x ! now x) < n"
          by auto
        have "set ((frame_ids x)[now x := -1]) \<subseteq> insert (-1) (set (frame_ids x))"
          by (rule set_update_subset_insert)
        with fr have "\<forall>v \<in> set ((frame_ids x)[now x := -1]). v = -1 \<or> (0 \<le> v \<and> nat v < n)"
          by blast
        with wf m v show ?thesis by (simp add: y rep_ok_unfold replacer_wf_def)
      qed
    qed
  qed
  with ok pos show ?thesis by blast
qed

lemma Victim_rep_ok:
  assumes "Victim r = Some (Some v, r')" and "rep_ok n r"
  shows "rep_ok n r' \<and> 0 \<le> v \<and> nat v < n"
proof -
  from assms(1) have pos: "0 < size_r r" and "\<exists>y. victim_sweep r = Some y \<and> fst y = v \<and> snd y = r'"
    by (auto simp: Victim_def split: if_splits)
  then obtain y where "victim_sweep r = Some y" "fst y = v" "snd y = r'" by blast
  with victim_sweep_rep_ok [OF this(1) assms(2) pos] show ?thesis by simp
qed

lemma Victim_false_same: "Victim r = Some (None, r') \<Longrightarrow> r' = r"
  by (auto simp: Victim_def split: if_splits)

subsection \<open>Each call keeps the invariant\<close>

lemma pool_inv_in_pool: "pool_inv s \<Longrightarrow> in_pool s f \<longleftrightarrow> 0 \<le> f \<and> nat f < pool_size s"
  by (simp add: pool_inv_def dir_ok_unfold in_pool_def)

lemma pool_inv_resident:
  assumes "pool_inv s" and "map_of (page_table s) p = Some f"
  shows "0 \<le> f \<and> nat f < pool_size s \<and> page_id (pages s ! nat f) = p \<and> p \<noteq> -1"
  using assms(1) map_of_SomeD [OF assms(2)] by (auto simp: pool_inv_def dir_ok_unfold)

lemma pool_inv_keys:
  assumes "pool_inv s" and "k \<in> fst ` set (page_table s)"
  shows "k \<noteq> -1"
  using assms by (auto simp: pool_inv_def dir_ok_unfold)

lemma pool_inv_WritePage: "pool_inv (WritePage p d s) = pool_inv s"
  by (simp add: pool_inv_def WritePage_def)

lemma pool_inv_DeallocatePage: "pool_inv (DeallocatePage p s) = pool_inv s"
  by (simp add: pool_inv_def DeallocatePage_def)

lemma pool_inv_FlushPgImp:
  assumes "pool_inv s" and "FlushPgImp p s = Inr (b, s')"
  shows "pool_inv s' \<and> free_list s' = free_list s \<and> pool_size s' = pool_size s \<and>
         page_table s' = page_table s \<and> next_page_id s' = next_page_id s"
proof (cases "map_of (page_table s) p")
  case None
  with assms show ?thesis by (simp add: FlushPgImp_def)
next
  case (Some f)
  with assms(2) have s': "s' = (WritePage p (data (pages s ! nat f)) s)
      \<lparr>pages := (pages s)[nat f := (pages s ! nat f)\<lparr>is_dirty := False\<rparr>]\<rparr>"
    by (auto simp: FlushPgImp_def Let_def WritePage_def split: if_splits)
  from assms(1) have "dir_ok (pool_size s)
      ((pages s)[nat f := (pages s ! nat f)\<lparr>is_dirty := False\<rparr>]) (page_table s) (free_list s)"
    by (intro dir_ok_meta) (simp_all add: pool_inv_def)
  with assms(1) show ?thesis by (simp add: s' pool_inv_def WritePage_def)
qed

lemma fold_WritePage_pool_inv:
  "pool_inv (fold (\<lambda>(p, f) t. WritePage p (data (pages t ! nat f)) t) xs s) = pool_inv s"
proof (induction xs arbitrary: s)
  case Nil
  show ?case by simp
next
  case (Cons x xs)
  obtain p f where x: "x = (p, f)" by (cases x)
  have "pool_inv (fold (\<lambda>(p, f) t. WritePage p (data (pages t ! nat f)) t) (x # xs) s) =
      pool_inv (WritePage p (data (pages s ! nat f)) s)"
    unfolding x by (simp only: fold_simps case_prod_conv Cons.IH)
  then show ?case by (simp only: pool_inv_WritePage)
qed

lemma pool_inv_FlushAllPgsImp:
  assumes "pool_inv s" and "FlushAllPgsImp s = Inr (b, s')"
  shows "pool_inv s'"
  using assms by (auto simp: FlushAllPgsImp_def fold_WritePage_pool_inv split: if_splits)

lemma pool_inv_UnpinPgImp:
  assumes inv: "pool_inv s" and run: "UnpinPgImp p d s = Inr (b, s')"
  shows "pool_inv s'"
proof (cases "map_of (page_table s) p")
  case None
  with assms show ?thesis by (simp add: UnpinPgImp_def)
next
  case (Some f)
  from pool_inv_resident [OF inv Some] have f: "0 \<le> f" "nat f < pool_size s" by simp_all
  show ?thesis
  proof (cases "0 < pin_count (pages s ! nat f)")
    case False
    with Some run inv show ?thesis by (auto simp: UnpinPgImp_def Let_def split: if_splits)
  next
    case True
    let ?pg = "(pages s ! nat f)\<lparr>pin_count := pin_count (pages s ! nat f) - 1,
        is_dirty := (if \<not> is_dirty (pages s ! nat f) then d else is_dirty (pages s ! nat f))\<rparr>"
    let ?r = "if pin_count (pages s ! nat f) - 1 = 0 then Unpin (replacer s) f else replacer s"
    from Some run True have s': "s' = s\<lparr>pages := (pages s)[nat f := ?pg], replacer := ?r\<rparr>"
      by (auto simp: UnpinPgImp_def Let_def split: if_splits)
    from inv have "dir_ok (pool_size s) ((pages s)[nat f := ?pg])
        (page_table s) (free_list s)"
      by (intro dir_ok_meta) (simp_all add: pool_inv_def)
    moreover from inv f have "rep_ok (pool_size s) ?r"
      by (simp add: pool_inv_def rep_ok_Unpin)
    ultimately show ?thesis using inv by (simp add: s' pool_inv_def)
  qed
qed

lemma pool_inv_DeletePgImp:
  assumes inv: "pool_inv s" and run: "DeletePgImp p s = Inr (b, s')"
  shows "pool_inv s'"
proof (cases "map_of (page_table s) p")
  case None
  with assms show ?thesis by (auto simp: DeletePgImp_def pool_inv_DeallocatePage)
next
  case (Some f)
  show ?thesis
  proof (cases "0 < pin_count (pages s ! nat f)")
    case True
    with Some run inv show ?thesis by (auto simp: DeletePgImp_def split: if_splits)
  next
    case False
    let ?pg = "(pages s ! nat f)\<lparr>page_id := INVALID_PAGE_ID, pin_count := 0, is_dirty := False\<rparr>"
    from Some run False have s': "s' = DeallocatePage p
        (s\<lparr>pages := (pages s)[nat f := ?pg], free_list := f # free_list s,
           page_table := AList.delete p (page_table s)\<rparr>)"
      by (auto simp: DeletePgImp_def split: if_splits)
    from inv Some have "dir_ok (pool_size s) ((pages s)[nat f := ?pg])
        (AList.delete p (page_table s)) (f # free_list s)"
      by (intro dir_ok_delete) (simp_all add: pool_inv_def INVALID_PAGE_ID_def)
    with inv show ?thesis by (simp add: s' pool_inv_DeallocatePage) (simp add: pool_inv_def)
  qed
qed

lemma pool_inv_take_free:
  assumes inv: "pool_inv s" and fl: "free_list s = f # fl"
    and k: "k \<notin> fst ` set (page_table s)" "k \<noteq> -1" "page_id pg = k"
    and s': "pool_size s' = pool_size s"
      "pages s' = (pages s)[nat f := pg]"
      "page_table s' = AList.update k f (page_table s)"
      "free_list s' = fl" "replacer s' = Pin (replacer s) f"
  shows "pool_inv s'"
proof -
  from inv fl have ok: "dir_ok (pool_size s) (pages s) (page_table s) (f # fl)"
    by (simp add: pool_inv_def)
  then have f: "0 \<le> f" "nat f < pool_size s" by (simp_all add: dir_ok_unfold)
  from dir_ok_take [OF ok k]
  have "dir_ok (pool_size s) ((pages s)[nat f := pg]) (AList.update k f (page_table s)) fl" .
  moreover from inv f have "rep_ok (pool_size s) (Pin (replacer s) f)"
    by (simp add: pool_inv_def rep_ok_Pin)
  ultimately show ?thesis by (simp add: pool_inv_def s')
qed

lemma pool_inv_evict:
  assumes inv: "pool_inv s" and fl: "free_list s = []"
    and ok': "rep_ok (pool_size s) r'" and v: "0 \<le> v" "nat v < pool_size s"
    and k: "k \<notin> fst ` set (AList.delete (page_id (pages s ! nat v)) (page_table s))"
      "k \<noteq> -1" "page_id pg = k"
    and s': "pool_size s' = pool_size s"
      "pages s' = (pages s)[nat v := pg]"
      "page_table s' = AList.update k v (AList.delete (page_id (pages s ! nat v)) (page_table s))"
      "free_list s' = []" "replacer s' = Pin r' v"
  shows "pool_inv s'"
proof -
  from inv fl have ok: "dir_ok (pool_size s) (pages s) (page_table s) []"
    by (simp add: pool_inv_def)
  from dir_ok_evict [OF ok v k]
  have "dir_ok (pool_size s) ((pages s)[nat v := pg])
      (AList.update k v (AList.delete (page_id (pages s ! nat v)) (page_table s))) []" .
  moreover from ok' v have "rep_ok (pool_size s) (Pin r' v)" by (rule rep_ok_Pin)
  ultimately show ?thesis by (simp add: pool_inv_def s')
qed

text \<open>
  A key that, if it has an entry at all, has it for frame \<open>v\<close> has no entry once the page
  of frame \<open>v\<close> is erased.
\<close>

lemma no_clash_after_erase:
  assumes inv: "pool_inv s" and v: "\<And>g. map_of (page_table s) k = Some g \<Longrightarrow> g = v"
  shows "k \<notin> fst ` set (AList.delete (page_id (pages s ! nat v)) (page_table s))"
proof
  assume "k \<in> fst ` set (AList.delete (page_id (pages s ! nat v)) (page_table s))"
  then obtain g where g: "(k, g) \<in> set (page_table s)" and ne: "k \<noteq> page_id (pages s ! nat v)"
    by (auto simp: set_delete)
  from inv have "distinct (map fst (page_table s))" by (simp add: pool_inv_def dir_ok_unfold)
  with g have m: "map_of (page_table s) k = Some g" by simp
  from v [OF m] pool_inv_resident [OF inv m] ne show False by simp
qed

lemma pool_inv_NewPg_victim:
  assumes inv: "pool_inv s" and fl: "free_list s = []" and run: "NewPg_victim s = Inr (x, s')"
    and ok: "\<And>p f. x = Some (p, f) \<Longrightarrow>
       p \<noteq> -1 \<and> (\<forall>g. map_of (page_table s) p = Some g \<longrightarrow> g = f)"
  shows "pool_inv s'"
proof (cases "Victim (replacer s)")
  case None
  with run show ?thesis by (simp add: NewPg_victim_def)
next
  case (Some y)
  obtain res r' where y: "y = (res, r')" by (cases y)
  show ?thesis
  proof (cases res)
    case None
    with Some y have "r' = replacer s" by (auto dest: Victim_false_same)
    with Some y None run inv show ?thesis by (simp add: NewPg_victim_def)
  next
    case (Some v)
    with \<open>Victim (replacer s) = Some y\<close> y have vic: "Victim (replacer s) = Some (Some v, r')" by simp
    from inv have "rep_ok (pool_size s) (replacer s)" by (simp add: pool_inv_def)
    from Victim_rep_ok [OF vic this]
    have r': "rep_ok (pool_size s) r'" and v: "0 \<le> v" "nat v < pool_size s" by simp_all
    let ?s1 = "s\<lparr>replacer := r'\<rparr>"
    have inv1: "pool_inv ?s1" using inv r' by (simp add: pool_inv_def)
    have in1: "in_pool ?s1 v" using inv1 v by (simp add: pool_inv_in_pool)
    let ?fl = "if is_dirty (pages ?s1 ! nat v)
               then FlushPgImp (page_id (pages ?s1 ! nat v)) ?s1 else Inr (False, ?s1)"
    from run vic in1 obtain b s2 where flush: "?fl = Inr (b, s2)"
      and inst: "NewPg_install v (s2\<lparr>page_table :=
          AList.delete (page_id (pages s2 ! nat v)) (page_table s2)\<rparr>) = Inr (x, s')"
      by (cases ?fl) (auto simp: NewPg_victim_def Let_def split: if_splits)
    have inv2: "pool_inv s2" and fl2: "free_list s2 = []" and ps2: "pool_size s2 = pool_size s"
      and tab2: "page_table s2 = page_table s" and nxt2: "next_page_id s2 = next_page_id s"
      using flush inv1 fl pool_inv_FlushPgImp [of ?s1 "page_id (pages ?s1 ! nat v)" b s2]
      by (auto split: if_splits)
    let ?s3 = "s2\<lparr>page_table := AList.delete (page_id (pages s2 ! nat v)) (page_table s2)\<rparr>"
    let ?k = "sint (next_page_id s2)"
    from NewPg_install_Inr [OF inst] obtain pg where x: "x = Some (?k, v)"
      and pg: "page_id pg = ?k"
      and s': "s' = ?s3\<lparr>next_page_id := next_page_id s2 + num_instances s2,
                   pages := (pages s2)[nat v := pg],
                   page_table := AList.update ?k v (page_table ?s3),
                   replacer := Pin (replacer s2) v\<rparr>"
      by auto
    from ok [OF x] have k: "?k \<noteq> -1"
      and only: "\<And>g. map_of (page_table s2) ?k = Some g \<Longrightarrow> g = v"
      by (simp_all add: tab2)
    from inv2 have rep2: "rep_ok (pool_size s2) (replacer s2)" by (simp add: pool_inv_def)
    show ?thesis
      using inv2 fl2 rep2 v k pg no_clash_after_erase [OF inv2 only]
      by (intro pool_inv_evict [of s2 "replacer s2" v ?k pg s']) (simp_all add: ps2 s')
  qed
qed

lemma pool_inv_NewPgImp:
  assumes inv: "pool_inv s" and run: "NewPgImp s = Inr (x, s')"
    and ok: "\<And>p f. x = Some (p, f) \<Longrightarrow>
       p \<noteq> -1 \<and> (\<forall>g. map_of (page_table s) p = Some g \<longrightarrow> g = f)"
  shows "pool_inv s'"
proof (cases "list_all (\<lambda>i. \<not> pin_count (pages s ! i) \<le> 0) [0..<pool_size s]")
  case True
  with run inv show ?thesis by (simp add: NewPgImp_alt)
next
  case False
  show ?thesis
  proof (cases "free_list s")
    case Nil
    with False run have "NewPg_victim s = Inr (x, s')" by (simp add: NewPgImp_alt)
    with inv Nil show ?thesis using ok by (rule pool_inv_NewPg_victim)
  next
    case (Cons f fl)
    from inv Cons have f: "0 \<le> f" "page_id (pages s ! nat f) = -1"
      by (simp_all add: pool_inv_def dir_ok_unfold)
    then have "f \<noteq> -1" by simp
    with False Cons run have inst: "NewPg_install f (s\<lparr>free_list := fl\<rparr>) = Inr (x, s')"
      by (simp add: NewPgImp_alt)
    let ?k = "sint (next_page_id s)"
    from NewPg_install_Inr [OF inst] obtain pg where x: "x = Some (?k, f)"
      and pg: "page_id pg = ?k"
      and s': "s' = s\<lparr>free_list := fl,
                   next_page_id := next_page_id s + num_instances s,
                   pages := (pages s)[nat f := pg],
                   page_table := AList.update ?k f (page_table s),
                   replacer := Pin (replacer s) f\<rparr>"
      by auto
    from ok [OF x] have k: "?k \<noteq> -1"
      and only: "\<And>g. map_of (page_table s) ?k = Some g \<Longrightarrow> g = f"
      by simp_all
    have nokey: "?k \<notin> fst ` set (page_table s)"
    proof
      assume "?k \<in> fst ` set (page_table s)"
      then obtain g where m: "map_of (page_table s) ?k = Some g"
        by (cases "map_of (page_table s) ?k") (auto simp: map_of_eq_None_iff)
      from only [OF m] pool_inv_resident [OF inv m] f(2) k show False by simp
    qed
    show ?thesis
      using inv Cons nokey k pg
      by (intro pool_inv_take_free [of s f fl ?k pg s']) (simp_all add: s')
  qed
qed

lemma pool_inv_FetchPg_miss:
  assumes inv: "pool_inv s" and miss: "map_of (page_table s) p = None"
    and run: "FetchPgImp p s = Inr (x, s')"
    and ok: "x \<noteq> None \<Longrightarrow> p \<noteq> -1"
  shows "pool_inv s'"
proof -
  from miss have nokey: "p \<notin> fst ` set (page_table s)" by (simp add: map_of_eq_None_iff)
  show ?thesis
  proof (cases "free_list s")
    case (Cons f fl)
    from inv Cons have f: "0 \<le> f" "page_id (pages s ! nat f) = -1"
      by (simp_all add: pool_inv_def dir_ok_unfold)
    then have "f \<noteq> -1" by simp
    with miss Cons run have inst: "FetchPg_install p f (s\<lparr>free_list := fl\<rparr>) = Inr (x, s')"
      by (simp add: FetchPgImp_alt)
    have "(-1::int) \<notin> fst ` set (page_table s)" using pool_inv_keys [OF inv, of "-1"] by auto
    then have del: "AList.delete (-1) (page_table s) = page_table s" by simp
    from FetchPg_install_Inr [OF inst] f(2) del obtain pg dk where x: "x = Some f"
      and pg: "page_id pg = p"
      and s': "s' = s\<lparr>free_list := fl, disk := dk,
                   page_table := AList.update p f (page_table s),
                   pages := (pages s)[nat f := pg],
                   replacer := Pin (replacer s) f\<rparr>"
      by auto
    from ok x have "p \<noteq> -1" by simp
    then show ?thesis
      using inv Cons nokey pg
      by (intro pool_inv_take_free [of s f fl p pg s']) (simp_all add: s')
  next
    case Nil
    show ?thesis
    proof (cases "Victim (replacer s)")
      case None
      with miss Nil run show ?thesis by (simp add: FetchPgImp_alt)
    next
      case (Some y)
      obtain res r' where y: "y = (res, r')" by (cases y)
      show ?thesis
      proof (cases res)
        case None
        with Some y have "r' = replacer s" by (auto dest: Victim_false_same)
        with Some y None miss Nil run inv show ?thesis by (simp add: FetchPgImp_alt)
      next
        case (Some v)
        with \<open>Victim (replacer s) = Some y\<close> y
        have vic: "Victim (replacer s) = Some (Some v, r')" by simp
        from inv have "rep_ok (pool_size s) (replacer s)" by (simp add: pool_inv_def)
        from Victim_rep_ok [OF vic this]
        have r': "rep_ok (pool_size s) r'" and v: "0 \<le> v" "nat v < pool_size s" by simp_all
        from miss Nil run vic have inst: "FetchPg_install p v (s\<lparr>replacer := r'\<rparr>) = Inr (x, s')"
          by (simp add: FetchPgImp_alt)
        from FetchPg_install_Inr [OF inst] obtain pg dk where x: "x = Some v"
          and pg: "page_id pg = p"
          and s': "s' = s\<lparr>disk := dk,
                   page_table := AList.update p v
                     (AList.delete (page_id (pages s ! nat v)) (page_table s)),
                   pages := (pages s)[nat v := pg],
                   replacer := Pin r' v\<rparr>"
          by auto
        from ok x have "p \<noteq> -1" by simp
        moreover from nokey
        have "p \<notin> fst ` set (AList.delete (page_id (pages s ! nat v)) (page_table s))"
          by (auto simp: set_delete)
        ultimately show ?thesis
          using inv Nil r' v pg
          by (intro pool_inv_evict [of s r' v p pg s']) (simp_all add: s')
      qed
    qed
  qed
qed

lemma pool_inv_FetchPgImp:
  assumes inv: "pool_inv s" and run: "FetchPgImp p s = Inr (x, s')"
    and ok: "x \<noteq> None \<Longrightarrow> p \<noteq> -1"
  shows "pool_inv s'"
proof (cases "map_of (page_table s) p")
  case None
  with inv run ok show ?thesis by (intro pool_inv_FetchPg_miss [of s p x s']) simp_all
next
  case (Some f)
  from pool_inv_resident [OF inv Some] have f: "0 \<le> f" "nat f < pool_size s" by simp_all
  show ?thesis
  proof (cases "0 < pin_count (pages s ! nat f)")
    case True
    with Some run inv show ?thesis by (auto simp: FetchPgImp_alt split: if_splits)
  next
    case False
    let ?pg = "(pages s ! nat f)\<lparr>pin_count := pin_count (pages s ! nat f) + 1\<rparr>"
    from Some run False have s': "s' = s\<lparr>pages := (pages s)[nat f := ?pg],
        replacer := Pin (replacer s) f\<rparr>"
      by (auto simp: FetchPgImp_alt split: if_splits)
    from inv have "dir_ok (pool_size s) ((pages s)[nat f := ?pg])
        (page_table s) (free_list s)"
      by (intro dir_ok_meta) (simp_all add: pool_inv_def)
    moreover from inv f have "rep_ok (pool_size s) (Pin (replacer s) f)"
      by (simp add: pool_inv_def rep_ok_Pin)
    ultimately show ?thesis using inv by (simp add: s' pool_inv_def)
  qed
qed

lemma pool_inv_step:
  assumes inv: "pool_inv s" and ok: "no_id_clash q s" and run: "step q s = Inr (a, s')"
  shows "pool_inv s'"
  using run
proof (cases rule: step_Inr_cases)
  case (NewPage x)
  have "p \<noteq> -1 \<and> (\<forall>g. map_of (page_table s) p = Some g \<longrightarrow> g = f)" if "x = Some (p, f)" for p f
    using ok NewPage(1,2) that by (auto simp: no_id_clash_def INVALID_PAGE_ID_def)
  with inv NewPage(2) show ?thesis by (rule pool_inv_NewPgImp)
next
  case (FetchPage p x)
  have "p \<noteq> -1" if "x \<noteq> None"
    using ok FetchPage(1,2) that by (auto simp: no_id_clash_def INVALID_PAGE_ID_def)
  with inv FetchPage(2) show ?thesis by (rule pool_inv_FetchPgImp)
next
  case (UnpinPage p d x)
  with inv show ?thesis by (auto intro: pool_inv_UnpinPgImp)
next
  case (FlushPage p x)
  with inv show ?thesis by (auto dest: pool_inv_FlushPgImp)
next
  case FlushAllPages
  with inv show ?thesis by (auto intro: pool_inv_FlushAllPgsImp)
next
  case (DeletePage p x)
  with inv show ?thesis by (auto intro: pool_inv_DeletePgImp)
qed

lemma pool_inv_run:
  assumes "pool_inv s" and "no_id_clashes qs (Inr (out, s))"
    and "run qs (Inr (out, s)) = Inr (out', s')"
  shows "pool_inv s'"
  using assms
proof (induction qs arbitrary: out s)
  case Nil
  then show ?case by simp
next
  case (Cons q qs)
  show ?case
  proof (cases "step q s")
    case (Inl e)
    with Cons.prems(3) show ?thesis by (cases qs) simp_all
  next
    case (Inr y)
    obtain a t where y: "y = (a, t)" by (cases y)
    from Cons.prems(2) have q: "no_id_clash q s" by simp
    from Cons.prems(1) q Inr y have "pool_inv t" by (auto intro: pool_inv_step)
    moreover from Cons.prems(2) Inr y have "no_id_clashes qs (Inr (out @ [a], t))" by simp
    moreover from Cons.prems(3) Inr y have "run qs (Inr (out @ [a], t)) = Inr (out', s')" by simp
    ultimately show ?thesis by (rule Cons.IH)
  qed
qed

lemma pool_inv_fresh:
  assumes "fresh psize n idx d = Inr (out, s)"
  shows "pool_inv s \<and> pool_size s = psize"
proof -
  from fresh_Inr [OF assms]
  have s: "s = \<lparr>pool_size = psize, num_instances = n, instance_index = idx,
          next_page_id = idx, pages = replicate psize Page, page_table = [],
          free_list = map int [0..<psize], replacer = ClockReplacer psize, disk = d,
          deallocated = []\<rparr>"
    by simp
  have "dir_ok psize (replicate psize Page) [] (map int [0..<psize])"
    by (simp add: dir_ok_unfold distinct_map Page_def INVALID_PAGE_ID_def)
  then show ?thesis by (simp add: s pool_inv_def rep_ok_ClockReplacer)
qed

lemma NewPgImp_pool_size: "NewPgImp s = Inr (x, s') \<Longrightarrow> pool_size s' = pool_size s"
proof -
  have fl: "FlushPgImp p t = Inr (b, t') \<Longrightarrow> pool_size t' = pool_size t" for p t b t'
    by (auto simp: FlushPgImp_def WritePage_def Let_def split: option.splits if_splits)
  have ins: "NewPg_install f t = Inr (y, t') \<Longrightarrow> pool_size t' = pool_size t" for f t y t'
    by (auto dest!: NewPg_install_Inr)
  have vic: "NewPg_victim t = Inr (y, t') \<Longrightarrow> pool_size t' = pool_size t" for t y t'
    by (auto simp: NewPg_victim_def Let_def split: option.splits sum.splits prod.splits if_splits
        dest!: ins fl)
  show "NewPgImp s = Inr (x, s') \<Longrightarrow> pool_size s' = pool_size s"
    by (auto simp: NewPgImp_alt split: list.splits if_splits dest!: ins vic)
qed

lemma FetchPgImp_pool_size: "FetchPgImp p s = Inr (x, s') \<Longrightarrow> pool_size s' = pool_size s"
  by (auto simp: FetchPgImp_alt split: list.splits if_splits option.splits prod.splits
      dest!: FetchPg_install_Inr)

lemma step_pool_size:
  assumes "pool_size s = n" and "step q s = Inr (a, s')"
  shows "pool_size s' = n"
  using assms(2)
proof (cases rule: step_Inr_cases)
  case (NewPage x)
  with assms(1) show ?thesis by (auto dest: NewPgImp_pool_size)
next
  case (FetchPage p x)
  with assms(1) show ?thesis by (auto dest: FetchPgImp_pool_size)
next
  case (UnpinPage p d x)
  with assms(1) show ?thesis
    by (auto simp: UnpinPgImp_def Let_def split: if_splits option.splits)
next
  case (FlushPage p x)
  with assms(1) show ?thesis
    by (auto simp: FlushPgImp_def WritePage_def Let_def split: option.splits if_splits)
next
  case FlushAllPages
  have "pool_size (fold (\<lambda>(p, f) t. WritePage p (data (pages t ! nat f)) t) xs t) = pool_size t"
    for xs t by (induction xs arbitrary: t) (auto simp: WritePage_def)
  with FlushAllPages assms(1) show ?thesis
    by (auto simp: FlushAllPgsImp_def split: if_splits)
next
  case (DeletePage p x)
  with assms(1) show ?thesis
    by (auto simp: DeletePgImp_def DeallocatePage_def split: if_splits option.splits)
qed

text \<open>
  C4, as the code has it.  From a fresh instance, along every sequence of calls in which
  no \<open>FetchPage\<close> and no \<open>NewPage\<close> returns a frame for the invalid page id, and no
  \<open>NewPage\<close> returns an id that is resident in another frame at the time, each state
  reached has as many frames as its free list and its page table have entries together.
\<close>

theorem pool_size_is_free_plus_directory:
  assumes "no_id_clashes qs (fresh psize n idx d)"
    and "run qs (fresh psize n idx d) = Inr (out, s)"
  shows "pool_size s = length (free_list s) + length (page_table s) \<and> pool_size s = psize"
proof (cases "fresh psize n idx d")
  case (Inl e)
  with assms(2) show ?thesis by (cases qs) simp_all
next
  case (Inr y)
  obtain out0 s0 where y: "y = (out0, s0)" by (cases y)
  from pool_inv_fresh [of psize n idx d out0 s0] Inr y
  have inv0: "pool_inv s0" and ps0: "pool_size s0 = psize" by simp_all
  from inv0 assms Inr y have inv: "pool_inv s" by (auto intro: pool_inv_run)
  from assms(2) Inr y have "run qs (Inr (out0, s0)) = Inr (out, s)" by simp
  with ps0 have "pool_size s = psize"
    using run_preserves [where P = "\<lambda>s. pool_size s = psize" and s = s0 and s' = s
        and qs = qs and out = out0 and out' = out] step_pool_size
    by blast
  with inv show ?thesis by (simp add: pool_inv_def dir_ok_unfold)
qed

text \<open>
  The theorem at a pool of two frames: page 7 is fetched before any page is created, a
  page is created (id 0), unpinned and deleted, and page \<open>-2\<close> is fetched into its frame.
\<close>

theorem pool_size_is_free_plus_directory_witness:
  "no_id_clashes [FetchPage 7, NewPage, UnpinPage 0 False, DeletePage 0, FetchPage (-2)]
     (fresh 2 1 0 blank_disk) \<and>
   (\<exists>out s. run [FetchPage 7, NewPage, UnpinPage 0 False, DeletePage 0, FetchPage (-2)]
               (fresh 2 1 0 blank_disk) = Inr (out, s) \<and>
            out = [Frame (Some 0), NewFrame (Some (0, 1)), Flag True, Flag True,
                   Frame (Some 1)] \<and>
            free_list s = [] \<and> page_table s = [(7, 0), (-2, 1)] \<and>
            pool_size s = length (free_list s) + length (page_table s))"
proof -
  let ?qs = "[FetchPage 7, NewPage, UnpinPage 0 False, DeletePage 0, FetchPage (-2)]"
  have h1: "no_id_clashes ?qs (fresh 2 1 0 blank_disk)"
    by (simp add: scenario_defs no_id_clash_def)
  have "\<exists>out s. run ?qs (fresh 2 1 0 blank_disk) = Inr (out, s) \<and>
      out = [Frame (Some 0), NewFrame (Some (0, 1)), Flag True, Flag True, Frame (Some 1)] \<and>
      free_list s = [] \<and> page_table s = [(7, 0), (-2, 1)]"
    by (simp add: scenario_defs)
  then obtain out s where h2: "run ?qs (fresh 2 1 0 blank_disk) = Inr (out, s)"
    and o: "out = [Frame (Some 0), NewFrame (Some (0, 1)), Flag True, Flag True,
             Frame (Some 1)]" "free_list s = []" "page_table s = [(7, 0), (-2, 1)]"
    by blast
  from pool_size_is_free_plus_directory [OF h1 h2]
  have "pool_size s = length (free_list s) + length (page_table s)" by simp
  with h1 h2 o show ?thesis by blast
qed

text \<open>
  C4 as the spec states it fails, in each of the ways that the theorem excludes; every
  equation gives the responses, then the pool size, the free list and the page table.

  In a pool of two frames, \<open>FetchPage(0)\<close> before any \<open>NewPage\<close> puts page 0 in frame 0;
  the first \<open>NewPage\<close> then allocates the id 0 itself, takes frame 1 and overwrites the
  entry of page 0: no free frame and one entry, in a pool of two.

  In a pool of two frames, \<open>FetchPage(-1)\<close> puts a page with the invalid id in frame 0;
  \<open>FetchPage(5)\<close> takes the free frame 1, whose page id is the invalid one, and erases
  that id from the page table: no free frame and one entry, in a pool of two.

  With \<open>2\<^sup>3\<^sup>1\<close> instances and index 0, in a pool of three frames, the counter is back at
  0 after two \<open>NewPage\<close> calls; the third returns id 0 in frame 2 and overwrites the entry
  of frame 0: no free frame and two entries, in a pool of three.

  With \<open>2\<^sup>3\<^sup>1\<close> instances and index \<open>2\<^sup>3\<^sup>1 - 1\<close>, in a pool of three frames, the
  second \<open>NewPage\<close> returns the invalid id \<open>-1\<close>; \<open>FetchPage(5)\<close> takes the free frame 2
  and erases \<open>-1\<close> from the page table: no free frame and two entries, in a pool of
  three.
\<close>

theorem free_plus_directory_counterexample:
  "map_sum id (map_prod id (\<lambda>s. (pool_size s, free_list s, page_table s)))
     (run [FetchPage 0, NewPage] (fresh 2 1 0 blank_disk)) =
     Inr ([Frame (Some 0), NewFrame (Some (0, 1))], (2, [], [(0, 1)])) \<and>
   map_sum id (map_prod id (\<lambda>s. (pool_size s, free_list s, page_table s)))
     (run [FetchPage (-1), FetchPage 5] (fresh 2 1 0 blank_disk)) =
     Inr ([Frame (Some 0), Frame (Some 1)], (2, [], [(5, 1)])) \<and>
   map_sum id (map_prod id (\<lambda>s. (pool_size s, free_list s, page_table s)))
     (run [NewPage, NewPage, NewPage] (fresh 3 2147483648 0 blank_disk)) =
     Inr ([NewFrame (Some (0, 0)), NewFrame (Some (-2147483648, 1)), NewFrame (Some (0, 2))],
          (3, [], [(0, 2), (-2147483648, 1)])) \<and>
   map_sum id (map_prod id (\<lambda>s. (pool_size s, free_list s, page_table s)))
     (run [NewPage, NewPage, FetchPage 5] (fresh 3 2147483648 2147483647 blank_disk)) =
     Inr ([NewFrame (Some (2147483647, 0)), NewFrame (Some (-1, 1)), Frame (Some 2)],
          (3, [], [(2147483647, 0), (5, 2)]))"
  by (simp add: scenario_defs Let_def)

section \<open>No call of the instance hangs\<close>

text \<open>
  \<open>Victim\<close> hangs only where no frame is evictable and a slot below \<open>size_\<close> is empty.
  The instance asks for a victim only with the free list empty, and a frame leaves the
  free list only to be pinned in the replacer; so every frame of the pool is in a slot
  then, the pool has as many frames as the replacer has slots, and no slot is empty.
  What can stop a call of the instance is the assertion of \<open>ValidatePageId\<close>, once the
  counter has wrapped.
\<close>

subsection \<open>The slots of the replacer\<close>

lemma slots_distinct_iff:
  "list_all (\<lambda>i. list_all (\<lambda>j. xs ! i = -1 \<or> xs ! i \<noteq> xs ! j \<or> i = j) [0..<m]) [0..<m] \<longleftrightarrow>
   (\<forall>i<m. \<forall>j<m. xs ! i \<noteq> -1 \<longrightarrow> xs ! i = xs ! j \<longrightarrow> i = j)"
  for xs :: "int list"
proof
  assume l: "list_all (\<lambda>i. list_all (\<lambda>j. xs ! i = -1 \<or> xs ! i \<noteq> xs ! j \<or> i = j) [0..<m]) [0..<m]"
  show "\<forall>i<m. \<forall>j<m. xs ! i \<noteq> -1 \<longrightarrow> xs ! i = xs ! j \<longrightarrow> i = j"
  proof (intro allI impI)
    fix i j assume ij: "i < m" "j < m" "xs ! i \<noteq> -1" "xs ! i = xs ! j"
    from l ij(1) have "list_all (\<lambda>j. xs ! i = -1 \<or> xs ! i \<noteq> xs ! j \<or> i = j) [0..<m]"
      by (simp add: list_all_iff)
    with ij(2) have "xs ! i = -1 \<or> xs ! i \<noteq> xs ! j \<or> i = j" by (simp add: list_all_iff)
    with ij(3,4) show "i = j" by blast
  qed
next
  assume a: "\<forall>i<m. \<forall>j<m. xs ! i \<noteq> -1 \<longrightarrow> xs ! i = xs ! j \<longrightarrow> i = j"
  show "list_all (\<lambda>i. list_all (\<lambda>j. xs ! i = -1 \<or> xs ! i \<noteq> xs ! j \<or> i = j) [0..<m]) [0..<m]"
    unfolding list_all_iff
  proof (intro ballI)
    fix i j assume "i \<in> set [0..<m]" "j \<in> set [0..<m]"
    then have "i < m" "j < m" by simp_all
    with a [rule_format, of i j] show "xs ! i = -1 \<or> xs ! i \<noteq> xs ! j \<or> i = j" by blast
  qed
qed

lemma slots_ok_unfold:
  "slots_ok n r \<longleftrightarrow>
     replacer_inv r \<and> max_size r = n \<and> length (frame_ids r) = n \<and>
     (\<forall>x \<in> set (frame_ids r). x = -1 \<or> (0 \<le> x \<and> nat x < n)) \<and>
     (\<forall>i<n. \<forall>j<n. frame_ids r ! i \<noteq> -1 \<longrightarrow> frame_ids r ! i = frame_ids r ! j \<longrightarrow> i = j)"
proof (cases "replacer_inv r \<and> max_size r = n")
  case True
  then have "length (frame_ids r) = n" by (simp add: replacer_inv_unfold replacer_wf_def)
  with True show ?thesis unfolding slots_ok_def slots_distinct_iff by (simp add: list_all_iff)
next
  case False
  then show ?thesis unfolding slots_ok_def by blast
qed

lemma slots_ok_ClockReplacer: "slots_ok n (ClockReplacer n)"
  by (simp add: slots_ok_unfold replacer_inv_ClockReplacer) (simp add: ClockReplacer_def)

text \<open>A frame of the pool that no slot holds leaves a slot empty.\<close>

lemma slots_ok_room:
  assumes tot: "slots_ok n r" and f: "0 \<le> f" "nat f < n" and absent: "f \<notin> set (frame_ids r)"
  shows "-1 \<in> set (frame_ids r)"
proof (rule ccontr)
  assume full: "-1 \<notin> set (frame_ids r)"
  from tot have len: "length (frame_ids r) = n"
    and rng: "\<And>x. x \<in> set (frame_ids r) \<Longrightarrow> x = -1 \<or> (0 \<le> x \<and> nat x < n)"
    and inj: "\<And>i j. i < n \<Longrightarrow> j < n \<Longrightarrow> frame_ids r ! i \<noteq> -1 \<Longrightarrow>
        frame_ids r ! i = frame_ids r ! j \<Longrightarrow> i = j"
    by (auto simp: slots_ok_unfold)
  have "distinct (frame_ids r)"
    unfolding distinct_conv_nth
  proof (intro allI impI)
    fix i j assume ij: "i < length (frame_ids r)" "j < length (frame_ids r)" "i \<noteq> j"
    with full have "frame_ids r ! i \<noteq> -1" by (metis nth_mem)
    with inj [of i j] ij len show "frame_ids r ! i \<noteq> frame_ids r ! j" by auto
  qed
  then have "card (set (frame_ids r)) = n" using len by (simp add: distinct_card)
  moreover have "set (frame_ids r) \<subseteq> int ` {..<n}"
  proof
    fix x assume x: "x \<in> set (frame_ids r)"
    with rng [OF x] full have "0 \<le> x" "nat x < n" by auto
    then have "x = int (nat x)" "nat x \<in> {..<n}" by simp_all
    then show "x \<in> int ` {..<n}" by (rule image_eqI)
  qed
  moreover have "card (int ` {..<n}) = n" by (simp add: card_image)
  ultimately have "set (frame_ids r) = int ` {..<n}" by (intro card_subset_eq) simp_all
  moreover from f have "f \<in> int ` {..<n}" by (intro image_eqI [of _ _ "nat f"]) simp_all
  ultimately show False using absent by simp
qed

text \<open>With every frame of the pool in a slot, no slot is empty.\<close>

lemma slots_ok_full:
  assumes tot: "slots_ok n r" and all: "\<forall>i<n. int i \<in> set (frame_ids r)"
  shows "-1 \<notin> set (frame_ids r)"
proof -
  from tot have len: "length (frame_ids r) = n" by (simp add: slots_ok_unfold)
  from all have sub: "int ` {..<n} \<subseteq> set (frame_ids r)" by auto
  have "card (int ` {..<n}) = n" by (simp add: card_image)
  moreover have "card (set (frame_ids r)) \<le> n" using card_length [of "frame_ids r"] len by simp
  moreover from sub have "card (int ` {..<n}) \<le> card (set (frame_ids r))"
    by (intro card_mono) simp_all
  ultimately have "card (int ` {..<n}) = card (set (frame_ids r))" by simp
  with sub have "int ` {..<n} = set (frame_ids r)" by (intro card_subset_eq) simp_all
  then have "set (frame_ids r) = int ` {..<n}" by simp
  then show ?thesis by auto
qed

lemma slots_ok_register:
  assumes tot: "slots_ok n r" and slot: "slot_of r (-1) = Some i"
    and f: "0 \<le> f" "nat f < n" and absent: "f \<notin> set (frame_ids r)"
  shows "slots_ok n (r\<lparr>frame_ids := (frame_ids r)[i := f], pinned := (pinned r)[i := b],
                       ref_bits := (ref_bits r)[i := False],
                       size_r := min (size_r r + 1) (max_size r)\<rparr>)"
proof -
  let ?r = "r\<lparr>frame_ids := (frame_ids r)[i := f], pinned := (pinned r)[i := b],
             ref_bits := (ref_bits r)[i := False], size_r := min (size_r r + 1) (max_size r)\<rparr>"
  from tot have inv: "replacer_inv r" and mx: "max_size r = n"
    and len: "length (frame_ids r) = n"
    and rng: "\<And>x. x \<in> set (frame_ids r) \<Longrightarrow> x = -1 \<or> (0 \<le> x \<and> nat x < n)"
    and inj: "\<And>i j. i < n \<Longrightarrow> j < n \<Longrightarrow> frame_ids r ! i \<noteq> -1 \<Longrightarrow>
        frame_ids r ! i = frame_ids r ! j \<Longrightarrow> i = j"
    by (auto simp: slots_ok_unfold)
  from slot mx have i: "i < n" by (simp add: slot_of_Some)
  have 1: "replacer_inv ?r" using inv slot by (rule replacer_inv_register)
  have 2: "\<forall>x \<in> set ((frame_ids r)[i := f]). x = -1 \<or> (0 \<le> x \<and> nat x < n)"
    using rng f set_update_subset_insert [of "frame_ids r" i f] by blast
  have 3: "k = j" if "k < n" "j < n" "(frame_ids r)[i := f] ! k \<noteq> -1"
    "(frame_ids r)[i := f] ! k = (frame_ids r)[i := f] ! j" for k j
  proof -
    have nf: "frame_ids r ! m \<noteq> f" if "m < n" for m
      using that absent len by (metis nth_mem)
    show ?thesis
    proof (cases "k = i")
      case True
      with that i len nf [of j] show ?thesis by (cases "j = i") simp_all
    next
      case False
      with that i len nf [of k] inj [of k j] show ?thesis by (cases "j = i") simp_all
    qed
  qed
  from 1 2 3 mx len show ?thesis by (simp add: slots_ok_unfold)
qed

lemma slots_ok_Pin:
  assumes tot: "slots_ok n r" and f: "0 \<le> f" "nat f < n"
  shows "slots_ok n (Pin r f) \<and> f \<in> set (frame_ids (Pin r f)) \<and>
         (\<forall>x. x \<noteq> -1 \<longrightarrow> x \<in> set (frame_ids r) \<longrightarrow> x \<in> set (frame_ids (Pin r f)))"
proof (cases "slot_of r f")
  case (Some i)
  from tot have len: "length (frame_ids r) = max_size r" by (simp add: slots_ok_unfold)
  from Some len have "f \<in> set (frame_ids r)" using slot_of_in_set [of r f] by simp
  moreover from tot Some have "slots_ok n (Pin r f)"
    by (simp add: Pin_def slots_ok_unfold replacer_inv_unfold replacer_wf_def)
  ultimately show ?thesis using Some by (simp add: Pin_def)
next
  case None
  from tot have len: "length (frame_ids r) = max_size r" "max_size r = n"
    by (simp_all add: slots_ok_unfold)
  from None len have absent: "f \<notin> set (frame_ids r)" by (simp add: slot_of_in_set)
  from slots_ok_room [OF tot f absent] len obtain i where i: "slot_of r (-1) = Some i"
    by (cases "slot_of r (-1)") (auto simp: slot_of_in_set)
  then have il: "i < length (frame_ids r)" "frame_ids r ! i = -1" using len by (simp_all add: slot_of_Some)
  have keep: "x \<in> set ((frame_ids r)[i := f])" if "x \<noteq> -1" "x \<in> set (frame_ids r)" for x
  proof -
    from that(2) obtain k where k: "k < length (frame_ids r)" "frame_ids r ! k = x"
      by (auto simp: in_set_conv_nth)
    with that(1) il have "k \<noteq> i" by auto
    with k have "(frame_ids r)[i := f] ! k = x" "k < length ((frame_ids r)[i := f])" by simp_all
    then show ?thesis by (metis nth_mem)
  qed
  from il have "f \<in> set ((frame_ids r)[i := f])" by (simp add: set_update_memI)
  with None i keep slots_ok_register [OF tot i f absent, of True] show ?thesis
    by (simp add: Pin_def)
qed

lemma slots_ok_Unpin:
  assumes tot: "slots_ok n r" and f: "0 \<le> f" "nat f < n"
  shows "slots_ok n (Unpin r f) \<and>
         (\<forall>x. x \<noteq> -1 \<longrightarrow> x \<in> set (frame_ids r) \<longrightarrow> x \<in> set (frame_ids (Unpin r f)))"
proof (cases "slot_of r f")
  case (Some i)
  with tot have "slots_ok n (Unpin r f)"
    by (simp add: Unpin_def slots_ok_unfold replacer_inv_unfold replacer_wf_def)
  then show ?thesis using Some by (simp add: Unpin_def)
next
  case None
  from tot have len: "length (frame_ids r) = max_size r" "max_size r = n"
    by (simp_all add: slots_ok_unfold)
  from None len have absent: "f \<notin> set (frame_ids r)" by (simp add: slot_of_in_set)
  from slots_ok_room [OF tot f absent] len obtain i where i: "slot_of r (-1) = Some i"
    by (cases "slot_of r (-1)") (auto simp: slot_of_in_set)
  then have il: "i < length (frame_ids r)" "frame_ids r ! i = -1" using len by (simp_all add: slot_of_Some)
  have keep: "x \<in> set ((frame_ids r)[i := f])" if "x \<noteq> -1" "x \<in> set (frame_ids r)" for x
  proof -
    from that(2) obtain k where k: "k < length (frame_ids r)" "frame_ids r ! k = x"
      by (auto simp: in_set_conv_nth)
    with that(1) il have "k \<noteq> i" by auto
    with k have "(frame_ids r)[i := f] ! k = x" "k < length ((frame_ids r)[i := f])" by simp_all
    then show ?thesis by (metis nth_mem)
  qed
  with None i slots_ok_register [OF tot i f absent, of False] show ?thesis
    by (simp add: Unpin_def)
qed

lemma slots_ok_Victim:
  assumes tot: "slots_ok n r" and v: "Victim r = Some (Some v, r')"
  shows "slots_ok n r' \<and> 0 \<le> v \<and> nat v < n \<and> v \<notin> set (frame_ids r') \<and>
         (\<forall>x. x \<noteq> v \<longrightarrow> x \<in> set (frame_ids r) \<longrightarrow> x \<in> set (frame_ids r'))"
proof -
  from tot have inv: "replacer_inv r" and mx: "max_size r = n"
    and len: "length (frame_ids r) = n"
    and rng: "\<And>x. x \<in> set (frame_ids r) \<Longrightarrow> x = -1 \<or> (0 \<le> x \<and> nat x < n)"
    and inj: "\<And>i j. i < n \<Longrightarrow> j < n \<Longrightarrow> frame_ids r ! i \<noteq> -1 \<Longrightarrow>
        frame_ids r ! i = frame_ids r ! j \<Longrightarrow> i = j"
    by (auto simp: slots_ok_unfold)
  from inv have wf: "replacer_wf r" by (simp add: replacer_inv_unfold)
  from Victim_true_swept [OF wf v] obtain i where i: "slot_evictable r i"
    and vi: "v = frame_ids r ! i"
    and r': "frame_ids r' = (frame_ids r)[i := -1]" "max_size r' = max_size r"
    by (auto simp: swept_def)
  from i wf mx have il: "i < n" "frame_ids r ! i \<noteq> -1"
    by (auto simp: slot_evictable_def replacer_wf_def)
  from il len have "v \<in> set (frame_ids r)" by (simp add: vi)
  from rng [OF this] il vi have vr: "0 \<le> v" "nat v < n" by auto
  have 1: "replacer_inv r'" using inv v by (rule replacer_inv_Victim)
  have 2: "\<forall>x \<in> set ((frame_ids r)[i := -1]). x = -1 \<or> (0 \<le> x \<and> nat x < n)"
    using rng set_update_subset_insert [of "frame_ids r" i "-1"] by blast
  have 3: "k = j" if "k < n" "j < n" "(frame_ids r)[i := -1] ! k \<noteq> -1"
    "(frame_ids r)[i := -1] ! k = (frame_ids r)[i := -1] ! j" for k j
  proof -
    from that(1,3) il len have ki: "k \<noteq> i" by auto
    with that(1) len have k: "(frame_ids r)[i := -1] ! k = frame_ids r ! k" by simp
    have ji: "j \<noteq> i"
    proof
      assume "j = i"
      with that(4) il len have "(frame_ids r)[i := -1] ! k = -1" by simp
      with that(3) show False by simp
    qed
    with that(2) len have j: "(frame_ids r)[i := -1] ! j = frame_ids r ! j" by simp
    from that(3) k have "frame_ids r ! k \<noteq> -1" by simp
    moreover from that(4) k j have "frame_ids r ! k = frame_ids r ! j" by simp
    ultimately show ?thesis using inj [of k j] that(1,2) by blast
  qed
  have 4: "v \<notin> set ((frame_ids r)[i := -1])"
  proof
    assume "v \<in> set ((frame_ids r)[i := -1])"
    then obtain k where k: "k < n" "(frame_ids r)[i := -1] ! k = v"
      using len by (auto simp: in_set_conv_nth)
    have ki: "k \<noteq> i"
    proof
      assume "k = i"
      with k il len have "v = -1" by simp
      with il vi show False by simp
    qed
    with k len have "frame_ids r ! k = v" by simp
    then have "frame_ids r ! i = frame_ids r ! k" by (simp add: vi)
    with inj [of i k] il k(1) have "i = k" by blast
    with ki show False by simp
  qed
  have 5: "x \<in> set ((frame_ids r)[i := -1])" if "x \<noteq> v" "x \<in> set (frame_ids r)" for x
  proof -
    from that(2) obtain k where k: "k < length (frame_ids r)" "frame_ids r ! k = x"
      by (auto simp: in_set_conv_nth)
    with that(1) vi have "k \<noteq> i" by auto
    with k have "(frame_ids r)[i := -1] ! k = x" "k < length ((frame_ids r)[i := -1])"
      by simp_all
    then show ?thesis by (metis nth_mem)
  qed
  have "slots_ok n r'"
    unfolding slots_ok_unfold r'
  proof (intro conjI)
    show "replacer_inv r'" by (rule 1)
    show "max_size r = n" by (rule mx)
    show "length ((frame_ids r)[i := -1]) = n" using len by simp
    show "\<forall>x\<in>set ((frame_ids r)[i := -1]). x = -1 \<or> (0 \<le> x \<and> nat x < n)" by (rule 2)
    show "\<forall>k<n. \<forall>j<n. (frame_ids r)[i := -1] ! k \<noteq> -1 \<longrightarrow>
        (frame_ids r)[i := -1] ! k = (frame_ids r)[i := -1] ! j \<longrightarrow> k = j"
      using 3 by blast
  qed
  moreover have "v \<notin> set (frame_ids r')" unfolding r' by (rule 4)
  moreover have "\<forall>x. x \<noteq> v \<longrightarrow> x \<in> set (frame_ids r) \<longrightarrow> x \<in> set (frame_ids r')"
    unfolding r' using 5 by blast
  ultimately show ?thesis using vr by blast
qed

text \<open>
  With every frame of the pool in a slot, as when the free list is empty, \<open>Victim\<close>
  returns.
\<close>

lemma Victim_returns_full:
  assumes tot: "slots_ok n r" and all: "\<forall>i<n. int i \<in> set (frame_ids r)"
  shows "\<exists>y. Victim r = Some y"
proof (cases "0 < Size r")
  case True
  from tot have "replacer_inv r" by (simp add: slots_ok_unfold)
  from Victim_with_evictable [OF this True] show ?thesis by blast
next
  case False
  from tot have inv: "replacer_inv r" and len: "length (frame_ids r) = n"
    and mx: "max_size r = n"
    by (simp_all add: slots_ok_unfold)
  from inv have "size_r r \<le> max_size r" by (simp add: replacer_inv_unfold replacer_wf_def)
  from slots_ok_full [OF tot all] have "\<And>i. i < n \<Longrightarrow> frame_ids r ! i \<noteq> -1"
    using len by (metis nth_mem)
  with \<open>size_r r \<le> max_size r\<close> mx
  have "\<not> list_ex (\<lambda>i. frame_ids r ! i = -1) [0..<size_r r]" by (auto simp: list_ex_iff)
  with Victim_without_evictable [OF inv] False show ?thesis by simp
qed

subsection \<open>The frames of the instance\<close>

lemma frames_ok_unfold:
  "frames_ok g s \<longleftrightarrow>
     length (pages s) = pool_size s \<and>
     (\<forall>f \<in> set (free_list s). 0 \<le> f \<and> nat f < pool_size s) \<and>
     (\<forall>p f. (p, f) \<in> set (page_table s) \<longrightarrow> 0 \<le> f \<and> nat f < pool_size s) \<and>
     slots_ok (pool_size s) (replacer s) \<and>
     (\<forall>i<pool_size s. int i = g \<or> int i \<in> set (free_list s) \<or>
                        int i \<in> set (frame_ids (replacer s)))"
  unfolding frames_ok_def list_all_iff by (simp add: Ball_def split_beta) 

lemma frames_ok_in_pool: "frames_ok g s \<Longrightarrow> in_pool s f \<longleftrightarrow> 0 \<le> f \<and> nat f < pool_size s"
  by (simp add: frames_ok_unfold in_pool_def)

lemma frames_ok_resident:
  "frames_ok g s \<Longrightarrow> map_of (page_table s) p = Some f \<Longrightarrow> 0 \<le> f \<and> nat f < pool_size s"
  using map_of_SomeD [of "page_table s" p f] by (simp add: frames_ok_unfold)

lemma set_update_alist: "set (AList.update k v al) \<subseteq> insert (k, v) (set al)"
  by (induction al) auto

text \<open>Changes that the frame bookkeeping does not see.\<close>

lemma frames_ok_meta:
  assumes "frames_ok g s"
    and "pool_size s' = pool_size s" and "length (pages s') = length (pages s)"
    and "free_list s' = free_list s" and "set (page_table s') \<subseteq> set (page_table s)"
    and "replacer s' = replacer s"
  shows "frames_ok g s'"
proof -
  from assms(1,5) have "\<forall>p f. (p, f) \<in> set (page_table s') \<longrightarrow> 0 \<le> f \<and> nat f < pool_size s"
    unfolding frames_ok_unfold by blast
  with assms show ?thesis unfolding frames_ok_unfold by simp
qed

lemma fold_WritePage_disk:
  "\<exists>dk. fold (\<lambda>(p, f) t. WritePage p (data (pages t ! nat f)) t) xs s = s\<lparr>disk := dk\<rparr>"
proof (induction xs arbitrary: s)
  case Nil
  have "s = s\<lparr>disk := disk s\<rparr>" by simp
  then show ?case by (simp only: fold_simps id_apply) blast
next
  case (Cons x xs)
  obtain p f where x: "x = (p, f)" by (cases x)
  let ?s1 = "WritePage p (data (pages s ! nat f)) s"
  from Cons.IH [of ?s1] obtain dk
    where "fold (\<lambda>(p, f) t. WritePage p (data (pages t ! nat f)) t) xs ?s1 = ?s1\<lparr>disk := dk\<rparr>" ..
  then have "fold (\<lambda>(p, f) t. WritePage p (data (pages t ! nat f)) t) (x # xs) s = s\<lparr>disk := dk\<rparr>"
    by (simp add: x WritePage_def)
  then show ?case by blast
qed

lemma FlushPgImp_total:
  assumes "frames_ok g s"
  shows "\<exists>b s'. FlushPgImp p s = Inr (b, s') \<and> frames_ok g s' \<and>
           pool_size s' = pool_size s \<and> free_list s' = free_list s \<and>
           page_table s' = page_table s \<and> replacer s' = replacer s"
proof (cases "map_of (page_table s) p")
  case None
  with assms show ?thesis by (auto simp: FlushPgImp_def)
next
  case (Some f)
  from frames_ok_resident [OF assms Some] assms have "in_pool s f" by (simp add: frames_ok_in_pool)
  with Some have run: "FlushPgImp p s = Inr (True, (WritePage p (data (pages s ! nat f)) s)
      \<lparr>pages := (pages s)[nat f := (pages s ! nat f)\<lparr>is_dirty := False\<rparr>]\<rparr>)"
    by (simp add: FlushPgImp_def Let_def WritePage_def)
  have "frames_ok g ((WritePage p (data (pages s ! nat f)) s)
      \<lparr>pages := (pages s)[nat f := (pages s ! nat f)\<lparr>is_dirty := False\<rparr>]\<rparr>)"
    using assms by (rule frames_ok_meta) (simp_all add: WritePage_def)
  with run show ?thesis by (auto simp: WritePage_def)
qed

lemma FlushAllPgsImp_total:
  assumes "frames_ok g s"
  shows "\<exists>s'. FlushAllPgsImp s = Inr ((), s') \<and> frames_ok g s'"
proof -
  from assms have "\<not> list_ex (\<lambda>(p, f). \<not> in_pool s f) (page_table s)"
    by (auto simp: list_ex_iff frames_ok_unfold in_pool_def)
  moreover obtain dk
    where "fold (\<lambda>(p, f) t. WritePage p (data (pages t ! nat f)) t) (page_table s) s = s\<lparr>disk := dk\<rparr>"
    using fold_WritePage_disk by blast
  moreover have "frames_ok g (s\<lparr>disk := dk\<rparr>)" using assms by (rule frames_ok_meta) simp_all
  ultimately show ?thesis by (simp add: FlushAllPgsImp_def)
qed

lemma UnpinPgImp_total:
  assumes ok: "frames_ok g s"
  shows "\<exists>b s'. UnpinPgImp p d s = Inr (b, s') \<and> frames_ok g s'"
proof (cases "map_of (page_table s) p")
  case None
  with ok show ?thesis by (auto simp: UnpinPgImp_def)
next
  case (Some f)
  from frames_ok_resident [OF ok Some] have f: "0 \<le> f" "nat f < pool_size s" by simp_all
  with ok have inp: "in_pool s f" by (simp add: frames_ok_in_pool)
  show ?thesis
  proof (cases "0 < pin_count (pages s ! nat f)")
    case False
    with Some inp ok show ?thesis by (auto simp: UnpinPgImp_def Let_def)
  next
    case True
    let ?pg = "pages s ! nat f"
    let ?r = "if pin_count ?pg - 1 = 0 then Unpin (replacer s) f else replacer s"
    let ?s' = "s\<lparr>pages := (pages s)[nat f := ?pg\<lparr>pin_count := pin_count ?pg - 1,
        is_dirty := if \<not> is_dirty ?pg then d else is_dirty ?pg\<rparr>], replacer := ?r\<rparr>"
    from Some inp True have run: "UnpinPgImp p d s = Inr (True, ?s')"
      by (simp add: UnpinPgImp_def Let_def)
    from ok have tot: "slots_ok (pool_size s) (replacer s)" by (simp add: frames_ok_unfold)
    from slots_ok_Unpin [OF tot f] tot
    have r: "slots_ok (pool_size s) ?r"
      and keep: "\<And>x. x \<noteq> -1 \<Longrightarrow> x \<in> set (frame_ids (replacer s)) \<Longrightarrow> x \<in> set (frame_ids ?r)"
      by auto
    have "int i = g \<or> int i \<in> set (free_list s) \<or> int i \<in> set (frame_ids ?r)"
      if "i < pool_size s" for i
    proof -
      from ok that have "int i = g \<or> int i \<in> set (free_list s) \<or>
          int i \<in> set (frame_ids (replacer s))" by (simp add: frames_ok_unfold)
      with keep [of "int i"] show ?thesis by auto
    qed
    with ok r have "frames_ok g ?s'" unfolding frames_ok_unfold by simp
    with run show ?thesis by blast
  qed
qed

lemma DeletePgImp_total:
  assumes ok: "frames_ok g s"
  shows "\<exists>b s'. DeletePgImp p s = Inr (b, s') \<and> frames_ok g s'"
proof (cases "map_of (page_table s) p")
  case None
  have "frames_ok g (DeallocatePage p s)"
    using ok by (rule frames_ok_meta) (simp_all add: DeallocatePage_def)
  with None show ?thesis by (auto simp: DeletePgImp_def)
next
  case (Some f)
  from frames_ok_resident [OF ok Some] have f: "0 \<le> f" "nat f < pool_size s" by simp_all
  with ok have inp: "in_pool s f" by (simp add: frames_ok_in_pool)
  show ?thesis
  proof (cases "0 < pin_count (pages s ! nat f)")
    case True
    with Some inp ok show ?thesis by (auto simp: DeletePgImp_def)
  next
    case False
    let ?s' = "DeallocatePage p
        (s\<lparr>pages := (pages s)[nat f := (pages s ! nat f)
               \<lparr>page_id := INVALID_PAGE_ID, pin_count := 0, is_dirty := False\<rparr>],
           free_list := f # free_list s,
           page_table := AList.delete p (page_table s)\<rparr>)"
    from Some inp False have run: "DeletePgImp p s = Inr (True, ?s')"
      by (simp add: DeletePgImp_def)
    have "\<forall>q h. (q, h) \<in> set (AList.delete p (page_table s)) \<longrightarrow> 0 \<le> h \<and> nat h < pool_size s"
      using ok unfolding frames_ok_unfold set_delete by blast
    with ok f have "frames_ok g ?s'" unfolding frames_ok_unfold by (auto simp: DeallocatePage_def)
    with run show ?thesis by blast
  qed
qed

text \<open>Installing a page in the frame in hand puts the frame into the replacer.\<close>

lemma frames_ok_install:
  assumes ok: "frames_ok f s" and f: "0 \<le> f" "nat f < pool_size s"
    and ps: "pool_size s' = pool_size s" and pg: "length (pages s') = length (pages s)"
    and fl: "free_list s' = free_list s"
    and tab: "set (page_table s') \<subseteq> insert (k, f) (set (page_table s))"
    and rp: "replacer s' = Pin (replacer s) f"
  shows "frames_ok (-1) s'"
proof -
  from ok have tot: "slots_ok (pool_size s) (replacer s)" by (simp add: frames_ok_unfold)
  from slots_ok_Pin [OF tot f]
  have r: "slots_ok (pool_size s) (Pin (replacer s) f)"
    and fin: "f \<in> set (frame_ids (Pin (replacer s) f))"
    and keep: "\<And>x. x \<noteq> -1 \<Longrightarrow> x \<in> set (frame_ids (replacer s)) \<Longrightarrow>
        x \<in> set (frame_ids (Pin (replacer s) f))"
    by auto
  have 1: "\<forall>p h. (p, h) \<in> set (page_table s') \<longrightarrow> 0 \<le> h \<and> nat h < pool_size s"
    using ok tab f unfolding frames_ok_unfold by blast
  have 2: "int i \<in> set (free_list s) \<or> int i \<in> set (frame_ids (Pin (replacer s) f))"
    if "i < pool_size s" for i
  proof -
    from ok that have "int i = f \<or> int i \<in> set (free_list s) \<or>
        int i \<in> set (frame_ids (replacer s))" by (simp add: frames_ok_unfold)
    with keep [of "int i"] fin show ?thesis by auto
  qed
  from ok have "length (pages s) = pool_size s"
    "\<forall>f \<in> set (free_list s). 0 \<le> f \<and> nat f < pool_size s"
    by (simp_all add: frames_ok_unfold)
  with 1 2 r show ?thesis unfolding frames_ok_unfold ps pg fl rp by simp
qed

text \<open>\<open>NewPg_install\<close> returns unless the assertion of \<open>ValidatePageId\<close> fails.\<close>

lemma NewPg_install_total:
  assumes ok: "frames_ok f s" and f: "0 \<le> f" "nat f < pool_size s"
  shows "NewPg_install f s = Inl AssertionFailure \<or>
         (\<exists>x s'. NewPg_install f s = Inr (x, s') \<and> frames_ok (-1) s')"
proof (cases "next_page_id s mod num_instances s = instance_index s")
  case False
  then show ?thesis by (simp add: NewPg_install_def AllocatePage_eq)
next
  case True
  let ?k = "sint (next_page_id s)"
  let ?pg = "(ResetMemory ((pages s ! nat f)\<lparr>page_id := ?k\<rparr>))
      \<lparr>is_dirty := True, pin_count := 1\<rparr>"
  let ?s' = "s\<lparr>next_page_id := next_page_id s + num_instances s,
      pages := (pages s)[nat f := ?pg],
      page_table := AList.update ?k f (page_table s),
      replacer := Pin (replacer s) f\<rparr>"
  from ok f have "in_pool s f" by (simp add: frames_ok_in_pool)
  with True have run: "NewPg_install f s = Inr (Some (?k, f), ?s')"
    by (simp add: NewPg_install_def AllocatePage_eq in_pool_def)
  have "set (AList.update ?k f (page_table s)) \<subseteq> insert (?k, f) (set (page_table s))"
    by (rule set_update_alist)
  then have "frames_ok (-1) ?s'"
    by (intro frames_ok_install [OF ok f, where k = ?k]) simp_all
  with run show ?thesis by blast
qed

lemma frames_ok_hand: "frames_ok (-1) s \<Longrightarrow> frames_ok g s"
  unfolding frames_ok_unfold by auto

lemma FetchPg_install_total:
  assumes ok: "frames_ok f s" and f: "0 \<le> f" "nat f < pool_size s"
  shows "\<exists>x s'. FetchPg_install p f s = Inr (x, s') \<and> frames_ok (-1) s'"
proof -
  from ok f have "in_pool s f" by (simp add: frames_ok_in_pool)
  then obtain x s' where run: "FetchPg_install p f s = Inr (x, s')"
    by (simp add: FetchPg_install_def Let_def)
  from FetchPg_install_Inr [OF run] obtain pg dk
    where s': "s' = s\<lparr>disk := dk,
        page_table := AList.update p f (AList.delete (page_id (pages s ! nat f)) (page_table s)),
        pages := (pages s)[nat f := pg], replacer := Pin (replacer s) f\<rparr>"
    by blast
  have "set (AList.update p f (AList.delete (page_id (pages s ! nat f)) (page_table s))) \<subseteq>
      insert (p, f) (set (page_table s))"
    using set_update_alist [of p f "AList.delete (page_id (pages s ! nat f)) (page_table s)"]
    unfolding set_delete by blast
  then have "frames_ok (-1) s'"
    by (intro frames_ok_install [OF ok f, where k = p]) (simp_all add: s')
  with run show ?thesis by blast
qed

text \<open>
  With the free list empty every frame of the pool is in a slot of the replacer, so
  \<open>Victim\<close> returns; the victim, if there is one, is then the frame in hand.
\<close>

lemma Victim_in_pool:
  assumes ok: "frames_ok (-1) s" and empty: "free_list s = []"
  shows "Victim (replacer s) = Some (None, replacer s) \<or>
         (\<exists>v r'. Victim (replacer s) = Some (Some v, r') \<and> 0 \<le> v \<and> nat v < pool_size s \<and>
            frames_ok v (s\<lparr>replacer := r'\<rparr>))"
proof -
  from ok have tot: "slots_ok (pool_size s) (replacer s)" by (simp add: frames_ok_unfold)
  from ok empty have allr: "\<forall>i<pool_size s. int i \<in> set (frame_ids (replacer s))"
    by (simp add: frames_ok_unfold)
  from Victim_returns_full [OF tot allr] obtain y where y: "Victim (replacer s) = Some y" ..
  obtain w r' where o: "y = (w, r')" by (cases y)
  show ?thesis
  proof (cases w)
    case None
    with y o Victim_false_same [of "replacer s" r'] show ?thesis by simp
  next
    case (Some v)
    with y o have v: "Victim (replacer s) = Some (Some v, r')" by simp
    from slots_ok_Victim [OF tot v]
    have r': "slots_ok (pool_size s) r'" and vr: "0 \<le> v" "nat v < pool_size s"
      and keep: "\<And>x. x \<noteq> v \<Longrightarrow> x \<in> set (frame_ids (replacer s)) \<Longrightarrow> x \<in> set (frame_ids r')"
      by auto
    have "int i = v \<or> int i \<in> set (free_list s) \<or> int i \<in> set (frame_ids r')"
      if "i < pool_size s" for i
      using allr that keep [of "int i"] by blast
    with ok r' have "frames_ok v (s\<lparr>replacer := r'\<rparr>)" unfolding frames_ok_unfold by simp
    with v vr show ?thesis by blast
  qed
qed

lemma NewPg_victim_total:
  assumes ok: "frames_ok (-1) s" and empty: "free_list s = []"
  shows "NewPg_victim s = Inl AssertionFailure \<or>
         (\<exists>x s'. NewPg_victim s = Inr (x, s') \<and> frames_ok (-1) s')"
  using Victim_in_pool [OF ok empty]
proof (elim disjE exE conjE)
  assume "Victim (replacer s) = Some (None, replacer s)"
  then have "NewPg_victim s = Inr (None, s)" by (simp add: NewPg_victim_def)
  with ok show ?thesis by blast
next
  fix v r'
  assume v: "Victim (replacer s) = Some (Some v, r')" and vr: "0 \<le> v" "nat v < pool_size s"
    and ok1: "frames_ok v (s\<lparr>replacer := r'\<rparr>)"
  let ?s1 = "s\<lparr>replacer := r'\<rparr>"
  from ok1 vr have inp: "in_pool ?s1 v" by (simp add: frames_ok_in_pool)
  obtain b s2 where fl: "(if is_dirty (pages ?s1 ! nat v)
        then FlushPgImp (page_id (pages ?s1 ! nat v)) ?s1 else Inr (False, ?s1)) = Inr (b, s2)"
    and ok2: "frames_ok v s2" and ps2: "pool_size s2 = pool_size s"
  proof (cases "is_dirty (pages ?s1 ! nat v)")
    case True
    from FlushPgImp_total [OF ok1, of "page_id (pages ?s1 ! nat v)"] obtain b s2
      where "FlushPgImp (page_id (pages ?s1 ! nat v)) ?s1 = Inr (b, s2)" "frames_ok v s2"
        "pool_size s2 = pool_size ?s1"
      by blast
    with True that show ?thesis by simp
  next
    case False
    with ok1 that [of False ?s1] show ?thesis by simp
  qed
  let ?s3 = "s2\<lparr>page_table := AList.delete (page_id (pages s2 ! nat v)) (page_table s2)\<rparr>"
  have "frames_ok v ?s3"
    using ok2 by (rule frames_ok_meta) (auto simp: set_delete)
  moreover from vr ps2 have "0 \<le> v" "nat v < pool_size ?s3" by simp_all
  ultimately have "NewPg_install v ?s3 = Inl AssertionFailure \<or>
      (\<exists>x s'. NewPg_install v ?s3 = Inr (x, s') \<and> frames_ok (-1) s')"
    by (rule NewPg_install_total)
  moreover have "NewPg_victim s = NewPg_install v ?s3"
    using v inp fl by (simp add: NewPg_victim_def Let_def)
  ultimately show ?thesis by simp
qed

lemma frames_ok_pop:
  assumes ok: "frames_ok (-1) s" and fl: "free_list s = f # fl"
  shows "0 \<le> f \<and> nat f < pool_size s \<and> frames_ok f (s\<lparr>free_list := fl\<rparr>)"
proof -
  from ok fl have f: "0 \<le> f" "nat f < pool_size s" by (simp_all add: frames_ok_unfold)
  have "int i = f \<or> int i \<in> set fl \<or> int i \<in> set (frame_ids (replacer s))"
    if "i < pool_size s" for i
  proof -
    from ok that have "int i \<in> set (free_list s) \<or> int i \<in> set (frame_ids (replacer s))"
      by (simp add: frames_ok_unfold)
    with fl show ?thesis by auto
  qed
  with ok fl f show ?thesis unfolding frames_ok_unfold by simp
qed

lemma NewPgImp_total:
  assumes ok: "frames_ok (-1) s"
  shows "NewPgImp s = Inl AssertionFailure \<or>
         (\<exists>x s'. NewPgImp s = Inr (x, s') \<and> frames_ok (-1) s')"
proof (cases "list_all (\<lambda>i. \<not> pin_count (pages s ! i) \<le> 0) [0..<pool_size s]")
  case True
  with ok show ?thesis by (auto simp: NewPgImp_alt)
next
  case False
  show ?thesis
  proof (cases "free_list s")
    case Nil
    with False NewPg_victim_total [OF ok Nil] show ?thesis by (simp add: NewPgImp_alt)
  next
    case (Cons f fl)
    from frames_ok_pop [OF ok Cons]
    have f: "0 \<le> f" "nat f < pool_size (s\<lparr>free_list := fl\<rparr>)"
      and ok1: "frames_ok f (s\<lparr>free_list := fl\<rparr>)" by simp_all
    from f have "f \<noteq> -1" by simp
    with False Cons NewPg_install_total [OF ok1 f] show ?thesis by (simp add: NewPgImp_alt)
  qed
qed

lemma FetchPgImp_total:
  assumes ok: "frames_ok (-1) s"
  shows "\<exists>x s'. FetchPgImp p s = Inr (x, s') \<and> frames_ok (-1) s'"
proof (cases "map_of (page_table s) p")
  case (Some f)
  from frames_ok_resident [OF ok Some] have f: "0 \<le> f" "nat f < pool_size s" by simp_all
  with ok have inp: "in_pool s f" by (simp add: frames_ok_in_pool)
  show ?thesis
  proof (cases "0 < pin_count (pages s ! nat f)")
    case True
    with Some inp ok show ?thesis by (auto simp: FetchPgImp_alt)
  next
    case False
    let ?s' = "s\<lparr>pages := (pages s)[nat f := (pages s ! nat f)
        \<lparr>pin_count := pin_count (pages s ! nat f) + 1\<rparr>], replacer := Pin (replacer s) f\<rparr>"
    from Some inp False have run: "FetchPgImp p s = Inr (Some f, ?s')"
      by (simp add: FetchPgImp_alt)
    from ok have "frames_ok f s" by (rule frames_ok_hand)
    then have "frames_ok (-1) ?s'"
      by (rule frames_ok_install [OF _ f, where k = p]) auto
    with run show ?thesis by blast
  qed
next
  case None
  show ?thesis
  proof (cases "free_list s")
    case Nil
    from Victim_in_pool [OF ok Nil] show ?thesis
    proof (elim disjE exE conjE)
      assume "Victim (replacer s) = Some (None, replacer s)"
      with None Nil have "FetchPgImp p s = Inr (None, s)" by (simp add: FetchPgImp_alt)
      with ok show ?thesis by blast
    next
      fix v r'
      assume v: "Victim (replacer s) = Some (Some v, r')"
        and vr: "0 \<le> v" "nat v < pool_size s" and ok1: "frames_ok v (s\<lparr>replacer := r'\<rparr>)"
      from vr have "0 \<le> v" "nat v < pool_size (s\<lparr>replacer := r'\<rparr>)" by simp_all
      from FetchPg_install_total [OF ok1 this, of p] None Nil v show ?thesis
        by (simp add: FetchPgImp_alt)
    qed
  next
    case (Cons f fl)
    from frames_ok_pop [OF ok Cons]
    have f: "0 \<le> f" "nat f < pool_size (s\<lparr>free_list := fl\<rparr>)"
      and ok1: "frames_ok f (s\<lparr>free_list := fl\<rparr>)" by simp_all
    from f have "f \<noteq> -1" by simp
    with None Cons FetchPg_install_total [OF ok1 f, of p] show ?thesis
      by (simp add: FetchPgImp_alt)
  qed
qed

lemma step_total:
  assumes ok: "frames_ok (-1) s"
  shows "step q s = Inl AssertionFailure \<or>
         (\<exists>a s'. step q s = Inr (a, s') \<and> frames_ok (-1) s')"
proof (cases q)
  case NewPage
  from NewPgImp_total [OF ok] show ?thesis
  proof
    assume "NewPgImp s = Inl AssertionFailure"
    with NewPage show ?thesis by simp
  next
    assume "\<exists>x s'. NewPgImp s = Inr (x, s') \<and> frames_ok (-1) s'"
    then obtain x s' where "NewPgImp s = Inr (x, s')" "frames_ok (-1) s'" by blast
    with NewPage show ?thesis by simp
  qed
next
  case (FetchPage p)
  from FetchPgImp_total [OF ok, of p] obtain x s'
    where "FetchPgImp p s = Inr (x, s')" "frames_ok (-1) s'" by blast
  with FetchPage show ?thesis by simp
next
  case (UnpinPage p d)
  from UnpinPgImp_total [OF ok, of p d] obtain x s'
    where "UnpinPgImp p d s = Inr (x, s')" "frames_ok (-1) s'" by blast
  with UnpinPage show ?thesis by simp
next
  case (FlushPage p)
  from FlushPgImp_total [OF ok, of p] obtain x s'
    where "FlushPgImp p s = Inr (x, s')" "frames_ok (-1) s'" by blast
  with FlushPage show ?thesis by simp
next
  case FlushAllPages
  from FlushAllPgsImp_total [OF ok] obtain s'
    where "FlushAllPgsImp s = Inr ((), s')" "frames_ok (-1) s'" by blast
  with FlushAllPages show ?thesis by simp
next
  case (DeletePage p)
  from DeletePgImp_total [OF ok, of p] obtain x s'
    where "DeletePgImp p s = Inr (x, s')" "frames_ok (-1) s'" by blast
  with DeletePage show ?thesis by simp
qed

lemma run_Inl: "run qs (Inl e) = Inl e"
  by (cases qs) simp_all

lemma run_total:
  assumes "frames_ok (-1) s"
  shows "run qs (Inr (out, s)) = Inl AssertionFailure \<or>
         (\<exists>out' s'. run qs (Inr (out, s)) = Inr (out', s') \<and> frames_ok (-1) s' \<and>
            length out' = length out + length qs)"
  using assms
proof (induction qs arbitrary: out s)
  case Nil
  then show ?case by simp
next
  case (Cons q qs)
  from step_total [OF Cons.prems, of q] show ?case
  proof
    assume "step q s = Inl AssertionFailure"
    then show ?thesis by (simp add: run_Inl)
  next
    assume "\<exists>a s'. step q s = Inr (a, s') \<and> frames_ok (-1) s'"
    then obtain a t where st: "step q s = Inr (a, t)" and t: "frames_ok (-1) t" by blast
    from Cons.IH [OF t, of "out @ [a]"] st show ?thesis by simp
  qed
qed

lemma frames_ok_fresh:
  assumes "fresh psize n idx d = Inr (out, s)"
  shows "out = [] \<and> frames_ok (-1) s"
proof -
  from fresh_Inr [OF assms]
  have "out = []" and s: "s = \<lparr>pool_size = psize, num_instances = n, instance_index = idx,
          next_page_id = idx, pages = replicate psize Page, page_table = [],
          free_list = map int [0..<psize], replacer = ClockReplacer psize, disk = d,
          deallocated = []\<rparr>"
    by simp_all
  moreover have "frames_ok (-1) s"
    unfolding frames_ok_unfold s by (simp add: slots_ok_ClockReplacer)
  ultimately show ?thesis by simp
qed

text \<open>
  No call on an instance hangs, and none indexes outside \<open>pages_\<close>: whatever the
  arguments of the constructor and of the calls, a sequence of calls either runs to its
  end, with one response for each call, or stops at a failed assertion, of the constructor
  or of \<open>ValidatePageId\<close>.  No \<open>Victim\<close> sweep goes on for ever, because the instance
  asks the replacer only when the free list is empty and every frame is in a slot.
\<close>

theorem no_call_hangs:
  "run qs (fresh psize n idx d) = Inl AssertionFailure \<or>
   (\<exists>out s. run qs (fresh psize n idx d) = Inr (out, s) \<and> length out = length qs)"
proof (cases "fresh psize n idx d")
  case (Inl e)
  then have "e = AssertionFailure"
    by (auto simp: fresh_def BufferPoolManagerInstance_def split: if_splits)
  with Inl show ?thesis by (simp add: run_Inl)
next
  case (Inr y)
  obtain out0 s0 where y: "y = (out0, s0)" by (cases y)
  from frames_ok_fresh [of psize n idx d out0 s0] Inr y
  have "out0 = []" and ok: "frames_ok (-1) s0" by simp_all
  with run_total [OF ok, of qs "[]"] Inr y show ?thesis by auto
qed


end
